theory Spec2Isabelle
  imports Main "HOL-Library.Log_Nat"
begin

section \<open>Python numbers\<close>

text \<open>
  The readings handed to \<^verbatim>\<open>setMeasurements\<close> are Python numbers: unbounded integers
  (\<^verbatim>\<open>80\<close>) or binary64 floats (\<^verbatim>\<open>30.4\<close>, \<^verbatim>\<open>float('inf')\<close>). A float is modelled by
  the exact rational it denotes, plus the special values. \<open>Fin 0\<close> is \<^verbatim>\<open>0.0\<close> and
  \<open>NegZero\<close> is \<^verbatim>\<open>-0.0\<close>.
\<close>

datatype pyfloat = Fin rat | NegZero | PosInf | NegInf | NaN

datatype pynum = PInt int | PFloat pyfloat

datatype error = ValueError | OverflowError | ZeroDivisionError

subsection \<open>Rounding an exact value to binary64\<close>

text \<open>\<open>ilog2 q\<close> is the binary exponent of a positive rational: \<open>2^e \<le> q < 2^(e+1)\<close>.\<close>

definition ilog2 :: "rat \<Rightarrow> int" where
  "ilog2 q = (let (a, b) = quotient_of q; k = bitlen a - bitlen b
              in if 2 powi k \<le> q then k else k - 1)"

definition round_half_even :: "rat \<Rightarrow> int" where
  "round_half_even x =
     (let f = \<lfloor>x\<rfloor>; d = x - of_int f
      in if d < 1 / 2 then f
         else if 1 / 2 < d then f + 1
         else if even f then f else f + 1)"

text \<open>
  IEEE 754 round-to-nearest, ties-to-even, for binary64: 53 significant bits, least
  exponent \<open>-1022\<close> (below it the subnormals share the unit \<open>2^-1074\<close>), overflow to an
  infinity when the rounded magnitude reaches \<open>2^1024\<close>. A non-zero value that rounds to
  zero keeps its sign.
\<close>

definition round_double :: "rat \<Rightarrow> pyfloat" where
  "round_double q =
     (if q = 0 then Fin 0
      else let e = ilog2 \<bar>q\<bar> in
        if 1024 \<le> e then (if 0 < q then PosInf else NegInf)
        else let u = 2 powi (max e (- 1022) - 52); n = round_half_even (q / u)
             in if n = 0 then (if q < 0 then NegZero else Fin 0)
                else if e = 1023 \<and> \<bar>n\<bar> = 2 ^ 53 then (if 0 < q then PosInf else NegInf)
                else Fin (of_int n * u))"

subsection \<open>Float arithmetic\<close>

fun fval :: "pyfloat \<Rightarrow> rat" where
  "fval (Fin q) = q"
| "fval _ = 0"

fun is_finite :: "pyfloat \<Rightarrow> bool" where
  "is_finite (Fin q) = True"
| "is_finite NegZero = True"
| "is_finite _ = False"

fun sign_bit :: "pyfloat \<Rightarrow> bool" where
  "sign_bit (Fin q) = (q < 0)"
| "sign_bit NegZero = True"
| "sign_bit NegInf = True"
| "sign_bit _ = False"

definition fzero :: "bool \<Rightarrow> pyfloat" where
  "fzero s = (if s then NegZero else Fin 0)"

definition finf :: "bool \<Rightarrow> pyfloat" where
  "finf s = (if s then NegInf else PosInf)"

fun float_neg :: "pyfloat \<Rightarrow> pyfloat" where
  "float_neg (Fin q) = (if q = 0 then NegZero else Fin (- q))"
| "float_neg NegZero = Fin 0"
| "float_neg PosInf = NegInf"
| "float_neg NegInf = PosInf"
| "float_neg NaN = NaN"

definition float_add :: "pyfloat \<Rightarrow> pyfloat \<Rightarrow> pyfloat" where
  "float_add x y =
     (if x = NaN \<or> y = NaN then NaN
      else if \<not> is_finite x then (if \<not> is_finite y \<and> x \<noteq> y then NaN else x)
      else if \<not> is_finite y then y
      else let s = fval x + fval y
           in if s = 0 then fzero (x = NegZero \<and> y = NegZero) else round_double s)"

definition float_sub :: "pyfloat \<Rightarrow> pyfloat \<Rightarrow> pyfloat" where
  "float_sub x y = float_add x (float_neg y)"

definition float_mul :: "pyfloat \<Rightarrow> pyfloat \<Rightarrow> pyfloat" where
  "float_mul x y =
     (if x = NaN \<or> y = NaN then NaN
      else let s = (sign_bit x \<noteq> sign_bit y) in
        if \<not> is_finite x then (if is_finite y \<and> fval y = 0 then NaN else finf s)
        else if \<not> is_finite y then (if fval x = 0 then NaN else finf s)
        else let p = fval x * fval y
             in if p = 0 then fzero s else round_double p)"

text \<open>Python raises \<^verbatim>\<open>ZeroDivisionError\<close> on a float division by zero.\<close>

definition float_div :: "pyfloat \<Rightarrow> pyfloat \<Rightarrow> error + pyfloat" where
  "float_div x y =
     (if is_finite y \<and> fval y = 0 then Inl ZeroDivisionError
      else if x = NaN \<or> y = NaN then Inr NaN
      else let s = (sign_bit x \<noteq> sign_bit y) in
        if \<not> is_finite x then Inr (if is_finite y then finf s else NaN)
        else if \<not> is_finite y then Inr (fzero s)
        else let q = fval x / fval y
             in Inr (if q = 0 then fzero s else round_double q))"

text \<open>
  \<^verbatim>\<open>float(i)\<close> for an integer operand of a mixed operation: correctly rounded, and
  \<^verbatim>\<open>OverflowError\<close> ("int too large to convert to float") when the rounded value
  does not fit.
\<close>

definition to_float :: "int \<Rightarrow> error + pyfloat" where
  "to_float i =
     (case round_double (of_int i) of
        PosInf \<Rightarrow> Inl OverflowError
      | NegInf \<Rightarrow> Inl OverflowError
      | f \<Rightarrow> Inr f)"

subsection \<open>The operators and builtins the displays use\<close>

fun py_add :: "pynum \<Rightarrow> pynum \<Rightarrow> error + pynum" where
  "py_add (PInt a) (PInt b) = Inr (PInt (a + b))"
| "py_add (PFloat x) (PFloat y) = Inr (PFloat (float_add x y))"
| "py_add (PInt a) (PFloat y) =
     (case to_float a of Inl e \<Rightarrow> Inl e | Inr x \<Rightarrow> Inr (PFloat (float_add x y)))"
| "py_add (PFloat x) (PInt b) =
     (case to_float b of Inl e \<Rightarrow> Inl e | Inr y \<Rightarrow> Inr (PFloat (float_add x y)))"

fun py_sub :: "pynum \<Rightarrow> pynum \<Rightarrow> error + pynum" where
  "py_sub (PInt a) (PInt b) = Inr (PInt (a - b))"
| "py_sub (PFloat x) (PFloat y) = Inr (PFloat (float_sub x y))"
| "py_sub (PInt a) (PFloat y) =
     (case to_float a of Inl e \<Rightarrow> Inl e | Inr x \<Rightarrow> Inr (PFloat (float_sub x y)))"
| "py_sub (PFloat x) (PInt b) =
     (case to_float b of Inl e \<Rightarrow> Inl e | Inr y \<Rightarrow> Inr (PFloat (float_sub x y)))"

fun py_mul :: "pynum \<Rightarrow> pynum \<Rightarrow> error + pynum" where
  "py_mul (PInt a) (PInt b) = Inr (PInt (a * b))"
| "py_mul (PFloat x) (PFloat y) = Inr (PFloat (float_mul x y))"
| "py_mul (PInt a) (PFloat y) =
     (case to_float a of Inl e \<Rightarrow> Inl e | Inr x \<Rightarrow> Inr (PFloat (float_mul x y)))"
| "py_mul (PFloat x) (PInt b) =
     (case to_float b of Inl e \<Rightarrow> Inl e | Inr y \<Rightarrow> Inr (PFloat (float_mul x y)))"

text \<open>
  True division \<^verbatim>\<open>/\<close>. On two integers the quotient is correctly rounded from the exact
  ratio, with \<^verbatim>\<open>OverflowError\<close> ("integer division result too large for a float")
  when it does not fit; a zero numerator gives a zero signed by the divisor.
\<close>

fun py_truediv :: "pynum \<Rightarrow> pynum \<Rightarrow> error + pynum" where
  "py_truediv (PInt a) (PInt b) =
     (if b = 0 then Inl ZeroDivisionError
      else if a = 0 then Inr (PFloat (fzero (b < 0)))
      else (case round_double (of_int a / of_int b) of
              PosInf \<Rightarrow> Inl OverflowError
            | NegInf \<Rightarrow> Inl OverflowError
            | f \<Rightarrow> Inr (PFloat f)))"
| "py_truediv (PFloat x) (PFloat y) =
     (case float_div x y of Inl e \<Rightarrow> Inl e | Inr f \<Rightarrow> Inr (PFloat f))"
| "py_truediv (PInt a) (PFloat y) =
     (case to_float a of Inl e \<Rightarrow> Inl e
      | Inr x \<Rightarrow> (case float_div x y of Inl e \<Rightarrow> Inl e | Inr f \<Rightarrow> Inr (PFloat f)))"
| "py_truediv (PFloat x) (PInt b) =
     (case to_float b of Inl e \<Rightarrow> Inl e
      | Inr y \<Rightarrow> (case float_div x y of Inl e \<Rightarrow> Inl e | Inr f \<Rightarrow> Inr (PFloat f)))"

text \<open>
  Comparison is exact, also between an integer and a float: the integer is compared by
  its value, not converted. Every comparison with \<^verbatim>\<open>nan\<close> is false.
\<close>

fun exact :: "pynum \<Rightarrow> pyfloat" where
  "exact (PInt i) = Fin (of_int i)"
| "exact (PFloat x) = x"

definition float_lt :: "pyfloat \<Rightarrow> pyfloat \<Rightarrow> bool" where
  "float_lt x y =
     (if x = NaN \<or> y = NaN then False
      else if x = NegInf then y \<noteq> NegInf
      else if x = PosInf then False
      else if y = PosInf then True
      else if y = NegInf then False
      else fval x < fval y)"

definition py_lt :: "pynum \<Rightarrow> pynum \<Rightarrow> bool" where
  "py_lt a b = float_lt (exact a) (exact b)"

definition py_gt :: "pynum \<Rightarrow> pynum \<Rightarrow> bool" where
  "py_gt a b = float_lt (exact b) (exact a)"

definition py_eq :: "pynum \<Rightarrow> pynum \<Rightarrow> bool" where
  "py_eq a b = (exact a \<noteq> NaN \<and> exact b \<noteq> NaN \<and>
     (if is_finite (exact a) \<and> is_finite (exact b) then fval (exact a) = fval (exact b)
      else exact a = exact b))"

text \<open>
  \<^verbatim>\<open>min(a, b)\<close> keeps its first argument unless the second is strictly less, and
  \<^verbatim>\<open>max(a, b)\<close> keeps its first unless the second is strictly greater.
\<close>

definition py_min :: "pynum \<Rightarrow> pynum \<Rightarrow> pynum" where
  "py_min a b = (if py_lt b a then b else a)"

definition py_max :: "pynum \<Rightarrow> pynum \<Rightarrow> pynum" where
  "py_max a b = (if py_gt b a then b else a)"

text \<open>
  \<^verbatim>\<open>round(x, 2)\<close>. An integer is returned as it is. A float is rounded, from its exact
  value, to the nearest multiple of \<open>1/100\<close> (ties to the even multiple), and the float
  nearest to that decimal is returned; infinities, \<^verbatim>\<open>nan\<close> and zeros are returned
  unchanged and a value that rounds to zero keeps its sign. CPython's
  \<^verbatim>\<open>OverflowError\<close> for a decimal beyond the float range cannot arise with two digits
  (a float of magnitude \<open>2^52\<close> or more is an integer), so the result is a float.
\<close>

fun float_round2 :: "pyfloat \<Rightarrow> pyfloat" where
  "float_round2 (Fin q) =
     (let n = round_half_even (q * 100)
      in if n = 0 then fzero (q < 0) else round_double (of_int n / 100))"
| "float_round2 x = x"

fun py_round2 :: "pynum \<Rightarrow> pynum" where
  "py_round2 (PInt i) = PInt i"
| "py_round2 (PFloat x) = PFloat (float_round2 x)"

text \<open>
  A float literal of the source denotes the float nearest to the decimal written:
  \<open>lit m d\<close> is the literal of the decimal \<open>m / d\<close>, so \<^verbatim>\<open>30.4\<close> is \<open>lit 304 10\<close> and
  \<^verbatim>\<open>0.11\<close> is \<open>lit 11 100\<close>.
\<close>

definition lit :: "int \<Rightarrow> int \<Rightarrow> pynum" where
  "lit m d = PFloat (round_double (of_int m / of_int d))"

section \<open>The objects of the program\<close>

text \<open>
  Observers are objects with identity, held by reference in the subject's list, so the
  model keeps them in a store indexed by object identifiers. Every identifier denotes an
  object; constructing an observer initialises the object at the identifier chosen for it.
  The program has one subject, the \<^verbatim>\<open>WeatherData\<close> instance, whose attributes are fields
  of the program state; the \<^verbatim>\<open>weatherData\<close> attribute of an observer always refers to
  it and is not stored.
\<close>

type_synonym oid = nat

record WeatherDataObserver =
  temperature :: pynum
  humidity :: pynum
  pressure :: pynum

record StatisticsDisplay = WeatherDataObserver +
  min_temp :: pynum
  average_temp :: pynum
  max_temp :: pynum
  min_humidity :: pynum
  average_humidity :: pynum
  max_humidity :: pynum
  min_pressure :: pynum
  average_pressure :: pynum
  max_pressure :: pynum

record ForecastDisplay = WeatherDataObserver +
  forcast_temp :: pynum
  forcast_humidity :: pynum
  forcast_pressure :: pynum

datatype observer =
    CurrentConditions WeatherDataObserver
  | Statistics StatisticsDisplay
  | Forecast ForecastDisplay

text \<open>One \<^verbatim>\<open>print\<close> call writes one line: its arguments, in order.\<close>

datatype pyval = Str string | Num pynum

type_synonym line = "pyval list"

record world =
  observers :: "oid list"
  wd_temperature :: pynum
  wd_humidity :: pynum
  wd_pressure :: pynum
  heap :: "oid \<Rightarrow> observer"
  stdout :: "line list"

text \<open>
  A call either returns normally with the new state (\<open>Inr\<close>) or raises (\<open>Inl\<close>); the
  assignments made before the exception stay, so the error carries the state it left.
\<close>

type_synonym 'a result = "error \<times> 'a + 'a"

fun state_of :: "'a result \<Rightarrow> 'a" where
  "state_of (Inl (e, s)) = s"
| "state_of (Inr s) = s"

fun raised :: "'a result \<Rightarrow> bool" where
  "raised (Inl _) = True"
| "raised (Inr _) = False"

definition print :: "line \<Rightarrow> world \<Rightarrow> world" where
  "print l w = w\<lparr>stdout := stdout w @ [l]\<rparr>"

section \<open>Subject\<close>

definition Subject_init :: "world \<Rightarrow> world" where
  "Subject_init w = w\<lparr>observers := []\<rparr>"

definition registerObserver :: "oid \<Rightarrow> world \<Rightarrow> world" where
  "registerObserver ob w = w\<lparr>observers := observers w @ [ob]\<rparr>"

text \<open>
  \<^verbatim>\<open>list.remove\<close> deletes the first element equal to its argument and raises
  \<^verbatim>\<open>ValueError\<close> when there is none.
\<close>

definition removeObserver :: "oid \<Rightarrow> world \<Rightarrow> world result" where
  "removeObserver ob w =
     (if ob \<in> set (observers w) then Inr (w\<lparr>observers := remove1 ob (observers w)\<rparr>)
      else Inl (ValueError, w))"

section \<open>The displays\<close>

subsection \<open>StatisticsDisplay\<close>

text \<open>\<^verbatim>\<open>round((a + b) / 2, 2)\<close>, the expression of the three averages.\<close>

definition midpoint :: "pynum \<Rightarrow> pynum \<Rightarrow> error + pynum" where
  "midpoint a b =
     (case py_add a b of Inl e \<Rightarrow> Inl e
      | Inr s \<Rightarrow> (case py_truediv s (PInt 2) of Inl e \<Rightarrow> Inl e
                  | Inr d \<Rightarrow> Inr (py_round2 d)))"

definition calculate_stats :: "StatisticsDisplay \<Rightarrow> StatisticsDisplay result" where
  "calculate_stats s0 =
     (let s1 = s0\<lparr>min_temp := py_round2 (py_min (min_temp s0) (temperature s0))\<rparr>;
          s2 = s1\<lparr>max_temp := py_round2 (py_max (max_temp s1) (temperature s1))\<rparr>
      in case midpoint (max_temp s2) (min_temp s2) of Inl e \<Rightarrow> Inl (e, s2)
      | Inr a3 \<Rightarrow>
     (let s3 = s2\<lparr>average_temp := a3\<rparr>;
          s4 = s3\<lparr>min_humidity := py_round2 (py_min (min_humidity s3) (humidity s3))\<rparr>;
          s5 = s4\<lparr>max_humidity := py_round2 (py_max (max_humidity s4) (humidity s4))\<rparr>
      in case midpoint (max_humidity s5) (min_humidity s5) of Inl e \<Rightarrow> Inl (e, s5)
      | Inr a6 \<Rightarrow>
     (let s6 = s5\<lparr>average_humidity := a6\<rparr>;
          s7 = s6\<lparr>min_pressure := py_round2 (py_min (min_pressure s6) (pressure s6))\<rparr>;
          s8 = s7\<lparr>max_pressure := py_round2 (py_max (max_pressure s7) (pressure s7))\<rparr>
      in case midpoint (max_pressure s8) (min_pressure s8) of Inl e \<Rightarrow> Inl (e, s8)
      | Inr a9 \<Rightarrow> Inr (s8\<lparr>average_pressure := a9\<rparr>))))"

definition StatisticsDisplay_lines :: "StatisticsDisplay \<Rightarrow> line list" where
  "StatisticsDisplay_lines s =
     [[Str ''--- Statistics ---''],
      [Str ''Min temperature:'', Num (min_temp s)],
      [Str ''Max temperature:'', Num (max_temp s)],
      [Str ''Average temperature:'', Num (average_temp s)],
      [Str ''Min humidity:'', Num (min_humidity s)],
      [Str ''Max humidity:'', Num (max_humidity s)],
      [Str ''Average humidity:'', Num (average_humidity s)],
      [Str ''Min pressure:'', Num (min_pressure s)],
      [Str ''Max pressure:'', Num (max_pressure s)],
      [Str ''Average pressure:'', Num (average_pressure s)],
      [Str ''------------------''],
      []]"

subsection \<open>ForecastDisplay\<close>

definition forcast_temp_expr :: "pynum \<Rightarrow> pynum \<Rightarrow> pynum \<Rightarrow> error + pynum" where
  "forcast_temp_expr t h p =
     (case py_mul (lit 11 100) h of Inl e \<Rightarrow> Inl e | Inr a \<Rightarrow>
     (case py_add t a of Inl e \<Rightarrow> Inl e | Inr b \<Rightarrow>
     (case py_mul (lit 22 100) p of Inl e \<Rightarrow> Inl e | Inr c \<Rightarrow>
     (case py_add b c of Inl e \<Rightarrow> Inl e | Inr d \<Rightarrow> Inr (py_round2 d)))))"

definition forcast_humidity_expr :: "pynum \<Rightarrow> error + pynum" where
  "forcast_humidity_expr h =
     (case py_mul (lit 9 10) h of Inl e \<Rightarrow> Inl e | Inr a \<Rightarrow>
     (case py_sub h a of Inl e \<Rightarrow> Inl e | Inr b \<Rightarrow> Inr (py_round2 b)))"

definition forcast_pressure_expr :: "pynum \<Rightarrow> pynum \<Rightarrow> error + pynum" where
  "forcast_pressure_expr t p =
     (case py_mul (lit 1 10) t of Inl e \<Rightarrow> Inl e | Inr a \<Rightarrow>
     (case py_add p a of Inl e \<Rightarrow> Inl e | Inr b \<Rightarrow>
     (case py_mul (lit 21 100) p of Inl e \<Rightarrow> Inl e | Inr c \<Rightarrow>
     (case py_sub b c of Inl e \<Rightarrow> Inl e | Inr d \<Rightarrow> Inr (py_round2 d)))))"

definition calculate_forcast :: "ForecastDisplay \<Rightarrow> ForecastDisplay result" where
  "calculate_forcast s0 =
     (case forcast_temp_expr (temperature s0) (humidity s0) (pressure s0) of
        Inl e \<Rightarrow> Inl (e, s0)
      | Inr ft \<Rightarrow>
     (let s1 = s0\<lparr>forcast_temp := ft\<rparr>
      in case forcast_humidity_expr (humidity s1) of Inl e \<Rightarrow> Inl (e, s1)
      | Inr fh \<Rightarrow>
     (let s2 = s1\<lparr>forcast_humidity := fh\<rparr>
      in case forcast_pressure_expr (temperature s2) (pressure s2) of Inl e \<Rightarrow> Inl (e, s2)
      | Inr fp \<Rightarrow> Inr (s2\<lparr>forcast_pressure := fp\<rparr>))))"

definition ForecastDisplay_lines :: "ForecastDisplay \<Rightarrow> line list" where
  "ForecastDisplay_lines s =
     [[Str ''--- Forecast ---''],
      [Str ''Temperature:'', Num (forcast_temp s)],
      [Str ''Humidity:'', Num (forcast_humidity s)],
      [Str ''Pressure:'', Num (forcast_pressure s)],
      [Str ''------------------END OF REPORT------------------''],
      []]"

subsection \<open>CurrentConditionsDisplay\<close>

definition CurrentConditionsDisplay_lines :: "WeatherDataObserver \<Rightarrow> line list" where
  "CurrentConditionsDisplay_lines s =
     [[Str ''Current conditions:'', Num (temperature s),
       Str ''F degrees and'', Num (humidity s), Str ''[%] humidity'',
       Str ''and pressure'', Num (pressure s)],
      []]"

subsection \<open>display and update\<close>

text \<open>\<^verbatim>\<open>self.display()\<close>, dispatched on the class of the object.\<close>

definition display :: "oid \<Rightarrow> world \<Rightarrow> world result" where
  "display self w =
     (case heap w self of
        CurrentConditions s \<Rightarrow>
          Inr (w\<lparr>stdout := stdout w @ CurrentConditionsDisplay_lines s\<rparr>)
      | Statistics s \<Rightarrow>
          (case calculate_stats s of
             Inl (e, s') \<Rightarrow> Inl (e, w\<lparr>heap := (heap w)(self := Statistics s')\<rparr>)
           | Inr s' \<Rightarrow> Inr (w\<lparr>heap := (heap w)(self := Statistics s'),
                               stdout := stdout w @ StatisticsDisplay_lines s'\<rparr>))
      | Forecast s \<Rightarrow>
          (case calculate_forcast s of
             Inl (e, s') \<Rightarrow> Inl (e, w\<lparr>heap := (heap w)(self := Forecast s')\<rparr>)
           | Inr s' \<Rightarrow> Inr (w\<lparr>heap := (heap w)(self := Forecast s'),
                               stdout := stdout w @ ForecastDisplay_lines s'\<rparr>)))"

fun store_reading :: "pynum \<Rightarrow> pynum \<Rightarrow> pynum \<Rightarrow> observer \<Rightarrow> observer" where
  "store_reading t h p (CurrentConditions s) =
     CurrentConditions (s\<lparr>temperature := t, humidity := h, pressure := p\<rparr>)"
| "store_reading t h p (Statistics s) =
     Statistics (s\<lparr>temperature := t, humidity := h, pressure := p\<rparr>)"
| "store_reading t h p (Forecast s) =
     Forecast (s\<lparr>temperature := t, humidity := h, pressure := p\<rparr>)"

text \<open>\<^verbatim>\<open>WeatherDataObserver.update\<close>, inherited by the three displays.\<close>

definition update :: "oid \<Rightarrow> pynum \<Rightarrow> pynum \<Rightarrow> pynum \<Rightarrow> world \<Rightarrow> world result" where
  "update self t h p w =
     display self (w\<lparr>heap := (heap w)(self := store_reading t h p (heap w self))\<rparr>)"

subsection \<open>Constructors\<close>

text \<open>Each constructor sets the fields of the new object and registers it with the subject.\<close>

definition WeatherDataObserver_init :: WeatherDataObserver where
  "WeatherDataObserver_init = \<lparr>temperature = PInt 0, humidity = PInt 0, pressure = PInt 0\<rparr>"

definition new_CurrentConditionsDisplay :: "oid \<Rightarrow> world \<Rightarrow> world" where
  "new_CurrentConditionsDisplay self w =
     registerObserver self
       (w\<lparr>heap := (heap w)(self := CurrentConditions WeatherDataObserver_init)\<rparr>)"

definition StatisticsDisplay_init :: StatisticsDisplay where
  "StatisticsDisplay_init =
     \<lparr>temperature = PInt 0, humidity = PInt 0, pressure = PInt 0,
      min_temp = PFloat PosInf, average_temp = PInt 0, max_temp = PFloat NegInf,
      min_humidity = PFloat PosInf, average_humidity = PInt 0, max_humidity = PFloat NegInf,
      min_pressure = PFloat PosInf, average_pressure = PInt 0, max_pressure = PFloat NegInf\<rparr>"

definition new_StatisticsDisplay :: "oid \<Rightarrow> world \<Rightarrow> world" where
  "new_StatisticsDisplay self w =
     registerObserver self (w\<lparr>heap := (heap w)(self := Statistics StatisticsDisplay_init)\<rparr>)"

definition ForecastDisplay_init :: ForecastDisplay where
  "ForecastDisplay_init =
     \<lparr>temperature = PInt 0, humidity = PInt 0, pressure = PInt 0,
      forcast_temp = PInt 0, forcast_humidity = PInt 0, forcast_pressure = PInt 0\<rparr>"

definition new_ForecastDisplay :: "oid \<Rightarrow> world \<Rightarrow> world" where
  "new_ForecastDisplay self w =
     registerObserver self (w\<lparr>heap := (heap w)(self := Forecast ForecastDisplay_init)\<rparr>)"

section \<open>WeatherData\<close>

text \<open>
  \<^verbatim>\<open>WeatherData()\<close>: no observers, the three measurements zero, nothing printed yet.
\<close>

definition new_WeatherData :: world where
  "new_WeatherData =
     \<lparr>observers = [], wd_temperature = PInt 0, wd_humidity = PInt 0, wd_pressure = PInt 0,
      heap = (\<lambda>_. CurrentConditions WeatherDataObserver_init), stdout = []\<rparr>"

text \<open>
  \<^verbatim>\<open>for ob in self.observers: ob.update(...)\<close>. A Python list iterator holds the list and an
  index: each step reads the live list at the index, and stops when the index reaches the
  current length. The three arguments are read from the subject at each call. An exception
  of \<^verbatim>\<open>update\<close> leaves the loop. The method \<^verbatim>\<open>update\<close> is found on the object at run time,
  so the loop takes the dispatch \<open>upd\<close> as a parameter; the program's own objects all use
  \<^const>\<open>update\<close>. Besides the result the loop returns the calls of \<^verbatim>\<open>update\<close> it made,
  in order: the object and the three arguments of each. A loop that never ends has the
  value \<open>None\<close>.
\<close>

type_synonym call = "oid \<times> pynum \<times> pynum \<times> pynum"

type_synonym dispatch = "oid \<Rightarrow> pynum \<Rightarrow> pynum \<Rightarrow> pynum \<Rightarrow> world \<Rightarrow> world result"

partial_function (option) notify_from ::
  "dispatch \<Rightarrow> nat \<Rightarrow> call list \<Rightarrow> world \<Rightarrow> (call list \<times> world result) option" where
  "notify_from upd i tr w =
     (if i < length (observers w) then
        (let ob = observers w ! i;
             t = wd_temperature w; h = wd_humidity w; p = wd_pressure w
         in case upd ob t h p w of
              Inl ew \<Rightarrow> Some (tr @ [(ob, t, h, p)], Inl ew)
            | Inr w' \<Rightarrow> notify_from upd (Suc i) (tr @ [(ob, t, h, p)]) w')
      else Some (tr, Inr w))"

declare notify_from.simps [code]

definition notifyObservers :: "dispatch \<Rightarrow> world \<Rightarrow> (call list \<times> world result) option" where
  "notifyObservers upd w = notify_from upd 0 [] w"

definition measurementsChanged :: "dispatch \<Rightarrow> world \<Rightarrow> (call list \<times> world result) option" where
  "measurementsChanged upd w = notifyObservers upd w"

definition setMeasurements ::
  "dispatch \<Rightarrow> pynum \<Rightarrow> pynum \<Rightarrow> pynum \<Rightarrow> world \<Rightarrow> (call list \<times> world result) option" where
  "setMeasurements upd t h p w =
     measurementsChanged upd (w\<lparr>wd_temperature := t, wd_humidity := h, wd_pressure := p\<rparr>)"

section \<open>Calling sequences\<close>

text \<open>
  A sequence of \<^verbatim>\<open>setMeasurements\<close> calls, as \<^verbatim>\<open>WeatherStation.main\<close> makes them. Each call
  starts from the state the one before left, also when that one raised and the caller
  went on. The calls of \<^verbatim>\<open>update\<close> are collected over the whole sequence.
\<close>

type_synonym reading = "pynum \<times> pynum \<times> pynum"

fun feed :: "dispatch \<Rightarrow> reading list \<Rightarrow> world \<Rightarrow> (call list \<times> world) option" where
  "feed upd [] w = Some ([], w)"
| "feed upd ((t, h, p) # rs) w =
     (case setMeasurements upd t h p w of
        None \<Rightarrow> None
      | Some (tr, r) \<Rightarrow>
          (case feed upd rs (state_of r) of
             None \<Rightarrow> None
           | Some (tr', w') \<Rightarrow> Some (tr @ tr', w')))"

text \<open>
  The objects \<^verbatim>\<open>WeatherStation.main\<close> builds, in its order, and the readings it feeds.
\<close>

definition main_objects :: world where
  "main_objects =
     new_ForecastDisplay 2 (new_StatisticsDisplay 1 (new_CurrentConditionsDisplay 0 new_WeatherData))"

definition main_readings :: "reading list" where
  "main_readings =
     [(PInt 80, PInt 65, lit 304 10),
      (PInt 82, PInt 70, lit 292 10),
      (PInt 78, PInt 90, lit 292 10)]"

definition main :: "(call list \<times> world) option" where
  "main = feed update main_readings main_objects"

text \<open>
  None of the three displays deregisters itself. To try the notification loop against an
  observer that does, here is the \<^verbatim>\<open>update\<close> such a subclass of \<^verbatim>\<open>WeatherDataObserver\<close>
  would have: the inherited \<^verbatim>\<open>update\<close>, then \<^verbatim>\<open>self.weatherData.removeObserver(self)\<close>.
  \<open>mixed_dispatch d\<close> is the dispatch of a program in which the object \<open>d\<close> is of that
  subclass and every other object is one of the three displays.
\<close>

definition deregistering_update :: dispatch where
  "deregistering_update self t h p w =
     (case update self t h p w of
        Inl ew \<Rightarrow> Inl ew
      | Inr w' \<Rightarrow> removeObserver self w')"

definition mixed_dispatch :: "oid \<Rightarrow> dispatch" where
  "mixed_dispatch d ob t h p w =
     (if ob = d then deregistering_update ob t h p w else update ob t h p w)"

text \<open>The world in which two \<^verbatim>\<open>CurrentConditionsDisplay\<close> objects were built.\<close>

definition two_current_displays :: world where
  "two_current_displays =
     new_CurrentConditionsDisplay 1 (new_CurrentConditionsDisplay 0 new_WeatherData)"

text \<open>An integer reading beyond the range of a float.\<close>

definition too_large :: int where
  "too_large = 2 ^ 1024"

section \<open>Observations\<close>

text \<open>
  What one call of \<^verbatim>\<open>display\<close> writes, and the exception it ends with, if any.
\<close>

definition display_output :: "oid \<Rightarrow> world \<Rightarrow> line list \<times> error option" where
  "display_output self w =
     (case display self w of
        Inl (e, w') \<Rightarrow> (drop (length (stdout w)) (stdout w'), Some e)
      | Inr w' \<Rightarrow> (drop (length (stdout w)) (stdout w'), None))"

text \<open>The state after \<open>n\<close> calls of \<^verbatim>\<open>display\<close> on one object, with no \<^verbatim>\<open>update\<close> between them.\<close>

fun displays :: "oid \<Rightarrow> nat \<Rightarrow> world \<Rightarrow> world" where
  "displays self 0 w = w"
| "displays self (Suc n) w = displays self n (state_of (display self w))"

text \<open>
  A sequence of \<^verbatim>\<open>update\<close> calls on one object, each followed by its \<^verbatim>\<open>display\<close> as
  \<^verbatim>\<open>update\<close> itself calls it.
\<close>

fun updates :: "oid \<Rightarrow> reading list \<Rightarrow> world \<Rightarrow> world" where
  "updates self [] w = w"
| "updates self ((t, h, p) # rs) w = updates self rs (state_of (update self t h p w))"

fun statistics_of :: "observer \<Rightarrow> StatisticsDisplay option" where
  "statistics_of (Statistics s) = Some s"
| "statistics_of _ = None"

definition temperature_stats :: "StatisticsDisplay \<Rightarrow> pynum \<times> pynum \<times> pynum" where
  "temperature_stats s = (min_temp s, max_temp s, average_temp s)"

text \<open>
  The states the program can reach: from a new \<^verbatim>\<open>WeatherData\<close>, by constructing displays,
  registering and removing observers, setting measurements, and calling \<^verbatim>\<open>update\<close> or
  \<^verbatim>\<open>display\<close> on an object directly; a call that raised leaves a reachable state too.
\<close>

inductive reachable :: "world \<Rightarrow> bool" where
  start: "reachable new_WeatherData"
| new_current: "reachable w \<Longrightarrow> reachable (new_CurrentConditionsDisplay ob w)"
| new_statistics: "reachable w \<Longrightarrow> reachable (new_StatisticsDisplay ob w)"
| new_forecast: "reachable w \<Longrightarrow> reachable (new_ForecastDisplay ob w)"
| register: "reachable w \<Longrightarrow> reachable (registerObserver ob w)"
| remove: "reachable w \<Longrightarrow> reachable (state_of (removeObserver ob w))"
| measurements:
    "reachable w \<Longrightarrow> setMeasurements update t h p w = Some (tr, r) \<Longrightarrow> reachable (state_of r)"
| updated: "reachable w \<Longrightarrow> reachable (state_of (update ob t h p w))"
| displayed: "reachable w \<Longrightarrow> reachable (state_of (display ob w))"

text \<open>
  A reading that \<^verbatim>\<open>round(v, 2)\<close> returns as it is and that is a float value exactly: an
  integer of magnitude at most \<open>2^53\<close>, or a float other than \<^verbatim>\<open>nan\<close> that
  \<^verbatim>\<open>round(v, 2)\<close> returns unchanged and whose double does not overflow.
\<close>

fun exact_reading :: "pynum \<Rightarrow> bool" where
  "exact_reading (PInt i) = (\<bar>i\<bar> \<le> 2 ^ 53)"
| "exact_reading (PFloat x) = (x \<noteq> NaN \<and> float_round2 x = x \<and> \<bar>fval x\<bar> < 2 powi 1023)"

text \<open>
  The accumulators of a \<^verbatim>\<open>StatisticsDisplay\<close> are values that \<^verbatim>\<open>round(x, 2)\<close> returns
  unchanged, in every \<^verbatim>\<open>StatisticsDisplay\<close> of the store.
\<close>

definition stats_inv :: "StatisticsDisplay \<Rightarrow> bool" where
  "stats_inv s \<longleftrightarrow>
     py_round2 (min_temp s) = min_temp s \<and> py_round2 (max_temp s) = max_temp s \<and>
     py_round2 (min_humidity s) = min_humidity s \<and> py_round2 (max_humidity s) = max_humidity s \<and>
     py_round2 (min_pressure s) = min_pressure s \<and> py_round2 (max_pressure s) = max_pressure s"

definition world_inv :: "world \<Rightarrow> bool" where
  "world_inv w \<longleftrightarrow> (\<forall>ob s. heap w ob = Statistics s \<longrightarrow> stats_inv s)"

text \<open>Evaluations of the float operations at the values the program's run meets.\<close>

named_theorems float_eval

section \<open>Properties of binary64 rounding\<close>

lemma two_powi_less_iff: "(2::rat) powi m < 2 powi n \<longleftrightarrow> m < n"
proof
  assume "(2::rat) powi m < 2 powi n"
  show "m < n"
  proof (rule ccontr)
    assume "\<not> m < n"
    then have "n \<le> m" by simp
    then have "(2::rat) powi n \<le> 2 powi m" by (intro power_int_increasing) auto
    with \<open>(2::rat) powi m < 2 powi n\<close> show False by simp
  qed
next
  assume "m < n"
  then show "(2::rat) powi m < 2 powi n" by (intro power_int_strict_increasing) auto
qed

lemma two_powi_le_iff: "(2::rat) powi m \<le> 2 powi n \<longleftrightarrow> m \<le> n"
  using two_powi_less_iff[of n m] by (auto simp: not_less[symmetric])

lemma bitlen_powi_bounds:
  assumes "0 < a"
  shows "(2::rat) powi (bitlen a - 1) \<le> of_int a" "of_int a < (2::rat) powi (bitlen a)"
proof -
  from bitlen_bounds[OF assms] have lo: "2 ^ nat (bitlen a - 1) \<le> a" and hi: "a < 2 ^ nat (bitlen a)"
    by auto
  have ge1: "1 \<le> bitlen a" using assms by (simp add: bitlen_alt_def)
  have "(of_int (2 ^ nat (bitlen a - 1)) :: rat) \<le> of_int a" using lo by (simp only: of_int_le_iff)
  then show "(2::rat) powi (bitlen a - 1) \<le> of_int a"
    using ge1 by (simp add: power_int_nonneg_exp)
  have "(of_int a :: rat) < of_int (2 ^ nat (bitlen a))" using hi by (simp only: of_int_less_iff)
  then show "of_int a < (2::rat) powi (bitlen a)"
    using ge1 by (simp add: power_int_nonneg_exp)
qed

lemma ilog2_bounds:
  assumes "0 < q"
  shows "2 powi (ilog2 q) \<le> q" "q < 2 powi (ilog2 q + 1)"
proof -
  obtain a b where ab: "quotient_of q = (a, b)" by (cases "quotient_of q")
  then have b: "0 < b" and q: "q = of_int a / of_int b"
    by (auto simp: quotient_of_denom_pos quotient_of_div)
  from assms q b have a: "0 < a" by (simp add: zero_less_divide_iff)
  define k where "k = bitlen a - bitlen b"
  have il: "ilog2 q = (if 2 powi k \<le> q then k else k - 1)"
    by (simp add: ilog2_def ab k_def)
  note A = bitlen_powi_bounds[OF a] and B = bitlen_powi_bounds[OF b]
  have bpos: "(0::rat) < of_int b" using b by simp
  have "q < 2 powi (bitlen a) / 2 powi (bitlen b - 1)"
    unfolding q using A(2) B(1) a
    by (intro frac_less) auto
  also have "\<dots> = 2 powi (k + 1)"
    by (simp add: k_def power_int_diff[symmetric] algebra_simps)
  finally have up: "q < 2 powi (k + 1)" .
  have "2 powi (bitlen a - 1) / 2 powi (bitlen b) < q"
    unfolding q using A(1) B(2) bpos
    by (intro frac_less2) auto
  moreover have "2 powi (bitlen a - 1) / (2::rat) powi (bitlen b) = 2 powi (k - 1)"
    by (simp add: k_def power_int_diff[symmetric] algebra_simps)
  ultimately have lo: "2 powi (k - 1) < q" by simp
  show "2 powi (ilog2 q) \<le> q" using lo by (simp add: il)
  show "q < 2 powi (ilog2 q + 1)" using up by (auto simp add: il not_le)
qed

lemma ilog2_unique:
  assumes "2 powi k \<le> q" "q < 2 powi (k + 1)"
  shows "ilog2 q = k"
proof -
  have "0 < (2::rat) powi k" by simp
  with assms(1) have q: "0 < q" by linarith
  note B = ilog2_bounds[OF q]
  have "(2::rat) powi k < 2 powi (ilog2 q + 1)" using assms(1) B(2) by linarith
  then have "k < ilog2 q + 1" by (simp only: two_powi_less_iff)
  moreover have "(2::rat) powi (ilog2 q) < 2 powi (k + 1)" using assms(2) B(1) by linarith
  then have "ilog2 q < k + 1" by (simp only: two_powi_less_iff)
  ultimately show ?thesis by simp
qed

lemma ilog2_mono_ge: "2 powi k \<le> q \<Longrightarrow> k \<le> ilog2 q"
proof -
  assume a: "2 powi k \<le> q"
  have "0 < (2::rat) powi k" by simp
  with a have q: "0 < q" by linarith
  have "(2::rat) powi k < 2 powi (ilog2 q + 1)" using a ilog2_bounds(2)[OF q] by linarith
  then have "k < ilog2 q + 1" by (simp only: two_powi_less_iff)
  then show ?thesis by simp
qed

lemma ilog2_less: "0 < q \<Longrightarrow> q < 2 powi k \<Longrightarrow> ilog2 q < k"
proof -
  assume q: "0 < q" and a: "q < 2 powi k"
  have "(2::rat) powi (ilog2 q) < 2 powi k" using a ilog2_bounds(1)[OF q] by linarith
  then show ?thesis by (simp only: two_powi_less_iff)
qed

lemma rhe_near:
  assumes "\<bar>x - of_int n\<bar> < 1 / 2"
  shows "round_half_even x = n"
proof -
  have lo: "of_int n - 1 / 2 < x" and hi: "x < of_int n + 1 / 2" using assms by linarith+
  show ?thesis
  proof (cases "of_int n \<le> x")
    case True
    then have f: "\<lfloor>x\<rfloor> = n" using hi by (intro floor_unique) linarith+
    then show ?thesis using hi by (simp add: round_half_even_def Let_def)
  next
    case False
    then have f: "\<lfloor>x\<rfloor> = n - 1" using lo by (intro floor_unique) (simp, linarith)
    then show ?thesis using lo False by (simp add: round_half_even_def Let_def)
  qed
qed

lemma rhe_of_int [simp]: "round_half_even (of_int n) = n"
  by (rule rhe_near) simp

lemma rhe_bounds: "\<bar>of_int (round_half_even x) - x\<bar> \<le> 1 / 2"
proof -
  have "of_int \<lfloor>x\<rfloor> \<le> x" "x < of_int \<lfloor>x\<rfloor> + 1" by linarith+
  then show ?thesis by (auto simp: round_half_even_def Let_def)
qed

lemma rhe_mono: "x \<le> y \<Longrightarrow> round_half_even x \<le> round_half_even y"
proof (rule ccontr)
  assume xy: "x \<le> y" and "\<not> round_half_even x \<le> round_half_even y"
  then have gt: "round_half_even y + 1 \<le> round_half_even x" by simp
  then have g: "(of_int (round_half_even y) :: rat) + 1 \<le> of_int (round_half_even x)"
    by (metis of_int_1 of_int_add of_int_le_iff)
  from rhe_bounds[of x] rhe_bounds[of y] xy g
  have ex: "of_int (round_half_even x) = x + 1 / 2" and ey: "of_int (round_half_even y) = y - 1 / 2"
    and "x = y" by linarith+
  then show False using g by simp
qed

lemma rhe_minus: "round_half_even (- x) = - round_half_even x"
proof (cases "\<bar>x - of_int (round_half_even x)\<bar> < 1 / 2")
  case True
  then have "\<bar>- x - of_int (- round_half_even x)\<bar> < 1 / 2" by (simp add: abs_minus_commute)
  then show ?thesis by (rule rhe_near)
next
  case False
  with rhe_bounds[of x] have h: "\<bar>x - of_int (round_half_even x)\<bar> = 1 / 2" by linarith
  define f where "f = \<lfloor>x\<rfloor>"
  have fx: "x = of_int f + 1 / 2"
  proof -
    have "of_int f \<le> x" "x < of_int f + 1" unfolding f_def by linarith+
    moreover have "round_half_even x = f \<or> round_half_even x = f + 1"
      by (auto simp: round_half_even_def Let_def f_def)
    ultimately show ?thesis using h by auto
  qed
  have fl: "\<lfloor>x\<rfloor> = f" by (simp add: f_def)
  have fm: "\<lfloor>- x\<rfloor> = - f - 1" unfolding fx by (intro floor_unique) simp_all
  have rx: "round_half_even x = (if even f then f else f + 1)"
    unfolding round_half_even_def Let_def fl by (simp add: fx)
  have rm: "round_half_even (- x) = (if even (- f - 1) then - f - 1 else - f)"
    unfolding round_half_even_def Let_def fm by (simp add: fx)
  show ?thesis unfolding rx rm by auto
qed

lemma round_double_overflow:
  assumes "2 powi 1024 \<le> \<bar>q\<bar>"
  shows "round_double q = (if 0 < q then PosInf else NegInf)"
proof -
  have "0 < (2::rat) powi 1024" by simp
  with assms have "q \<noteq> 0" by auto
  moreover have "1024 \<le> ilog2 \<bar>q\<bar>" using assms by (rule ilog2_mono_ge)
  ultimately show ?thesis by (simp add: round_double_def Let_def)
qed

lemma round_double_eval:
  assumes lo: "2 powi e \<le> \<bar>q\<bar>" and hi: "\<bar>q\<bar> < 2 powi (e + 1)"
    and e: "- 1022 \<le> e" "e < 1023"
  shows "round_double q = Fin (of_int (round_half_even (q / 2 powi (e - 52))) * 2 powi (e - 52))"
proof -
  have il: "ilog2 \<bar>q\<bar> = e" using lo hi by (rule ilog2_unique)
  have "0 < (2::rat) powi e" by simp
  with lo have q0: "q \<noteq> 0" by (cases "q = 0") auto
  define u :: rat where "u = 2 powi (e - 52)"
  have u: "0 < u" by (simp add: u_def)
  have ue: "2 powi e / u = 2 powi 52" by (simp add: u_def power_int_diff[symmetric])
  have "2 powi 52 \<le> \<bar>q\<bar> / u" using lo u ue by (metis divide_right_mono less_imp_le)
  then have big: "2 powi 52 \<le> \<bar>q / u\<bar>" using u by simp
  have n0: "round_half_even (q / u) \<noteq> 0"
  proof
    assume z: "round_half_even (q / u) = 0"
    from rhe_bounds[of "q / u"] z have "\<bar>q / u\<bar> \<le> 1 / 2" by simp
    moreover have "(1::rat) \<le> 2 powi 52" by simp
    ultimately show False using big by linarith
  qed
  show ?thesis
    using q0 il e n0 by (simp add: round_double_def Let_def u_def max_def)
qed

lemma rhe_tie:
  assumes "x = of_int f + 1 / 2" "n = (if even f then f else f + 1)"
  shows "round_half_even x = n"
proof -
  have "\<lfloor>x\<rfloor> = f" unfolding assms(1) by (intro floor_unique) simp_all
  then show ?thesis by (simp add: round_half_even_def Let_def assms)
qed

lemma two_powi_diff: "(2::rat) powi a / 2 powi b = 2 powi (a - b)"
  by (simp add: power_int_diff)

lemma two_powi_mult: "(2::rat) powi a * 2 powi b = 2 powi (a + b)"
  by (simp add: power_int_add)

lemma two_powi_nat: "0 \<le> a \<Longrightarrow> (2::rat) powi a = of_int (2 ^ nat a)"
  by (simp add: power_int_nonneg_exp)

lemma round_double_repr:
  assumes m: "m \<noteq> 0" "\<bar>m\<bar> \<le> 2 ^ 53" and k: "- 1074 \<le> k"
    and bound: "\<bar>of_int m * 2 powi k :: rat\<bar> < 2 powi 1024"
  shows "round_double (of_int m * 2 powi k) = Fin (of_int m * 2 powi k)"
proof -
  define y :: rat where "y = of_int m * 2 powi k"
  define e where "e = ilog2 \<bar>y\<bar>"
  define j where "j = max e (- 1022) - 52"
  have y0: "y \<noteq> 0" using m(1) by (simp add: y_def)
  then have ypos: "0 < \<bar>y\<bar>" by simp
  have ay: "\<bar>y\<bar> = of_int \<bar>m\<bar> * 2 powi k" by (simp add: y_def abs_mult)
  have e_hi: "e < 1024" unfolding e_def using ypos bound[folded y_def] by (rule ilog2_less)
  have lo: "2 powi e \<le> \<bar>y\<bar>" and hi: "\<bar>y\<bar> < 2 powi (e + 1)"
    unfolding e_def using ilog2_bounds[OF ypos] by auto
  have mle: "(of_int \<bar>m\<bar> :: rat) \<le> 2 ^ 53"
    using m(2) by (metis of_int_le_iff of_int_numeral of_int_power)
  have "\<bar>y\<bar> \<le> 2 ^ 53 * 2 powi k" unfolding ay using mle by (intro mult_right_mono) auto
  also have "\<dots> = 2 powi (53 + k)" by (simp add: power_int_add)
  finally have "2 powi e \<le> (2::rat) powi (53 + k)" using lo by linarith
  then have e_le: "e \<le> 53 + k" by (simp only: two_powi_le_iff)
  have je: "e - 52 \<le> j" by (simp add: j_def)
  have "\<exists>n. y = of_int n * 2 powi j"
  proof (cases "e \<le> 52 + k")
    case True
    then have jk: "j \<le> k" using k by (simp add: j_def)
    have "y = of_int m * (2 powi (k - j) * 2 powi j)" by (simp add: y_def two_powi_mult)
    also have "\<dots> = of_int (m * 2 ^ nat (k - j)) * 2 powi j"
      using jk by (simp add: two_powi_nat)
    finally show ?thesis by blast
  next
    case False
    with e_le have e: "e = 53 + k" by simp
    have "2 powi (53 + k) \<le> of_int \<bar>m\<bar> * (2::rat) powi k" using lo by (simp add: e ay)
    then have "2 ^ 53 * 2 powi k \<le> of_int \<bar>m\<bar> * (2::rat) powi k" by (simp add: power_int_add)
    then have "(2 ^ 53 :: rat) \<le> of_int \<bar>m\<bar>" by simp
    then have "2 ^ 53 \<le> \<bar>m\<bar>" by (metis of_int_le_iff of_int_numeral of_int_power)
    with m(2) have am: "\<bar>m\<bar> = 2 ^ 53" by simp
    have "even (2 ^ 53 :: int)" by simp
    with am have "even m" by (metis even_abs_add_iff even_add)
    then have md: "m = 2 * (m div 2)" by simp
    have j: "j = k + 1" using k by (simp add: j_def e)
    have "y = of_int (2 * (m div 2)) * 2 powi k" unfolding y_def using md by simp
    also have "\<dots> = of_int (m div 2) * 2 powi (k + 1)" by (simp add: power_int_add)
    finally show ?thesis unfolding j by blast
  qed
  then obtain n where n: "y = of_int n * 2 powi j" by blast
  have n0: "n \<noteq> 0" using y0 n by auto
  have yj: "y / 2 powi j = of_int n" by (simp add: n)
  have "of_int \<bar>n\<bar> * 2 powi j = \<bar>y\<bar>" by (simp add: n abs_mult)
  also have "\<dots> < 2 powi (e + 1)" by (rule hi)
  also have "\<dots> \<le> 2 powi (j + 53)" using je by (simp add: two_powi_le_iff)
  also have "\<dots> = 2 ^ 53 * 2 powi j" by (simp add: power_int_add)
  finally have "(of_int \<bar>n\<bar> :: rat) < 2 ^ 53" by simp
  then have nlt: "\<bar>n\<bar> < 2 ^ 53" by (metis of_int_less_iff of_int_numeral of_int_power)
  have "round_double y = Fin (of_int n * 2 powi j)"
    using y0 e_hi n0 nlt yj by (simp add: round_double_def Let_def e_def[symmetric] j_def[symmetric])
  then show ?thesis by (simp add: n[symmetric]) (simp add: y_def)
qed

lemma round_double_of_int:
  assumes "i \<noteq> 0" "\<bar>i\<bar> \<le> 2 ^ 53"
  shows "round_double (of_int i) = Fin (of_int i)"
proof -
  have "(of_int \<bar>i\<bar> :: rat) \<le> 2 ^ 53"
    using assms(2) by (metis of_int_le_iff of_int_numeral of_int_power)
  also have "\<dots> < 2 powi 1024" by simp
  finally have "\<bar>of_int i * 2 powi 0 :: rat\<bar> < 2 powi 1024" by simp
  from round_double_repr[OF assms, of 0, OF _ this] show ?thesis by simp
qed

lemma to_float_small [simp]:
  "i \<noteq> 0 \<Longrightarrow> \<bar>i\<bar> \<le> 2 ^ 53 \<Longrightarrow> to_float i = Inr (Fin (of_int i))"
  by (simp add: to_float_def round_double_of_int)

lemma to_float_0 [simp]: "to_float 0 = Inr (Fin 0)"
  by (simp add: to_float_def round_double_def)

lemma round_double_evalI:
  assumes "round_half_even (q / 2 powi (e - 52)) = n"
    and "2 powi e \<le> \<bar>q\<bar>" "\<bar>q\<bar> < 2 powi (e + 1)" "- 1022 \<le> e" "e < 1023"
    and "r = of_int n * 2 powi (e - 52)"
  shows "round_double q = Fin r"
  using round_double_eval[OF assms(2-5)] assms(1,6) by simp

lemma of_int_abs_le_pow: "\<bar>n\<bar> \<le> 2 ^ k \<longleftrightarrow> \<bar>of_int n :: rat\<bar> \<le> 2 ^ k"
  by (metis of_int_abs of_int_le_iff of_int_numeral of_int_power)

lemma rhe_abs_le:
  assumes "\<bar>x\<bar> \<le> of_int b"
  shows "\<bar>round_half_even x\<bar> \<le> b"
proof -
  have "x \<le> of_int b" "of_int (- b) \<le> x" using assms by auto
  from rhe_mono[OF this(1)] rhe_mono[OF this(2)] show ?thesis by (simp add: rhe_minus)
qed

lemma rhe_abs_ge:
  assumes "of_int b \<le> \<bar>x\<bar>" "0 \<le> b"
  shows "b \<le> \<bar>round_half_even x\<bar>"
proof (cases "0 \<le> x")
  case True
  then have "of_int b \<le> x" using assms by simp
  from rhe_mono[OF this] show ?thesis by simp
next
  case False
  then have "x \<le> of_int (- b)" using assms by simp
  from rhe_mono[OF this] show ?thesis by (simp add: rhe_minus)
qed

text \<open>The shape of a finite non-zero result of rounding.\<close>

lemma round_double_FinD:
  assumes "round_double q = Fin y" "y \<noteq> 0"
  shows "\<exists>m k. m \<noteq> 0 \<and> \<bar>m\<bar> \<le> 2 ^ 53 \<and> - 1074 \<le> k \<and> y = of_int m * 2 powi k \<and>
           \<bar>y\<bar> < 2 powi 1024"
proof -
  have q0: "q \<noteq> 0" using assms by (auto simp: round_double_def)
  define e where "e = ilog2 \<bar>q\<bar>"
  define j where "j = max e (- 1022) - 52"
  define m where "m = round_half_even (q / 2 powi j)"
  have e_hi: "e < 1024"
    using assms q0 by (auto simp: round_double_def Let_def e_def split: if_splits)
  have m0: "m \<noteq> 0" and nov: "\<not> (e = 1023 \<and> \<bar>m\<bar> = 2 ^ 53)" and y: "y = of_int m * 2 powi j"
    using assms q0 e_hi
    by (auto simp: round_double_def Let_def e_def[symmetric] j_def[symmetric] m_def[symmetric]
        split: if_splits)
  have qpos: "0 < \<bar>q\<bar>" using q0 by simp
  have hi: "\<bar>q\<bar> < 2 powi (e + 1)" unfolding e_def using ilog2_bounds[OF qpos] by simp
  have je: "e + 1 \<le> j + 53" by (simp add: j_def)
  have "\<bar>q / 2 powi j\<bar> = \<bar>q\<bar> / 2 powi j" by simp
  also have "\<dots> < 2 powi (e + 1) / 2 powi j" using hi by (simp add: divide_strict_right_mono)
  also have "\<dots> = 2 powi (e + 1 - j)" by (rule two_powi_diff)
  also have "\<dots> \<le> 2 powi 53" using je by (intro iffD2[OF two_powi_le_iff]) linarith
  finally have "\<bar>q / 2 powi j\<bar> \<le> of_int (2 ^ 53)" by simp
  then have mle: "\<bar>m\<bar> \<le> 2 ^ 53" unfolding m_def by (rule rhe_abs_le)
  have jlo: "- 1074 \<le> j" by (simp add: j_def)
  have ay: "\<bar>y\<bar> = of_int \<bar>m\<bar> * 2 powi j" by (simp add: y abs_mult)
  have "\<bar>y\<bar> < 2 powi 1024"
  proof (cases "e = 1023")
    case True
    with nov mle have "\<bar>m\<bar> < 2 ^ 53" by simp
    then have "(of_int \<bar>m\<bar> :: rat) < 2 ^ 53"
      by (metis of_int_less_iff of_int_numeral of_int_power)
    then have "\<bar>y\<bar> < 2 ^ 53 * 2 powi j" unfolding ay by (intro mult_strict_right_mono) auto
    also have "\<dots> = 2 powi (53 + j)" by (simp add: power_int_add)
    also have "\<dots> = 2 powi 1024" using True by (simp add: j_def)
    finally show ?thesis .
  next
    case False
    have "(of_int \<bar>m\<bar> :: rat) \<le> 2 ^ 53"
      using mle by (metis of_int_le_iff of_int_numeral of_int_power)
    then have "\<bar>y\<bar> \<le> 2 ^ 53 * 2 powi j" unfolding ay by (intro mult_right_mono) auto
    also have "\<dots> = 2 powi (53 + j)" by (simp add: power_int_add)
    also have "\<dots> < 2 powi 1024"
      using False e_hi by (intro iffD2[OF two_powi_less_iff]) (simp add: j_def)
    finally show ?thesis .
  qed
  with m0 mle jlo y show ?thesis by blast
qed

lemma round_double_fixed:
  assumes "round_double q = Fin y"
  shows "round_double y = Fin y"
proof (cases "y = 0")
  case True
  then show ?thesis by (simp add: round_double_def)
next
  case False
  from round_double_FinD[OF assms False] obtain m k where
    "m \<noteq> 0" "\<bar>m\<bar> \<le> 2 ^ 53" "- 1074 \<le> k" "y = of_int m * 2 powi k" "\<bar>y\<bar> < 2 powi 1024"
    by blast
  then show ?thesis using round_double_repr[of m k] by simp
qed

lemma float_round2_Fin:
  "float_round2 (Fin q) =
     (if round_half_even (q * 100) = 0 then fzero (q < 0)
      else round_double (of_int (round_half_even (q * 100)) / 100))"
  by (simp add: Let_def)

lemma float_round2_fixed_aux:
  assumes n: "n \<noteq> 0" and R: "round_double (of_int n / 100) = Fin y"
  shows "float_round2 (Fin y) = Fin y"
proof -
  define d :: rat where "d = of_int n / 100"
  define e where "e = ilog2 \<bar>d\<bar>"
  define j where "j = e - 52"
  define m where "m = round_half_even (d / 2 powi j)"
  have d0: "d \<noteq> 0" using n by (simp add: d_def)
  have "1 \<le> \<bar>n\<bar>" using n by simp
  then have "(1::rat) \<le> of_int \<bar>n\<bar>" by (metis of_int_1 of_int_le_iff)
  then have dge: "1 / 100 \<le> \<bar>d\<bar>" by (simp add: d_def)
  have "(2::rat) powi (- 7) \<le> 1 / 100" by simp
  with dge have "2 powi (- 7) \<le> \<bar>d\<bar>" by linarith
  then have e_lo: "- 7 \<le> e" unfolding e_def by (rule ilog2_mono_ge)
  have R': "round_double d = Fin y" using R by (simp add: d_def)
  have e_hi: "e < 1024"
    using R' d0 by (auto simp: round_double_def Let_def e_def split: if_splits)
  have mx: "max e (- 1022) - 52 = j" using e_lo by (simp add: j_def)
  have dpos: "0 < \<bar>d\<bar>" using d0 by simp
  have lo: "2 powi e \<le> \<bar>d\<bar>" and hi: "\<bar>d\<bar> < 2 powi (e + 1)"
    unfolding e_def using ilog2_bounds[OF dpos] by auto
  have pj: "0 < (2::rat) powi j" by simp
  have "\<bar>d / 2 powi j\<bar> = \<bar>d\<bar> / 2 powi j" by simp
  also have "\<dots> < 2 powi (e + 1) / 2 powi j" using hi by (simp add: divide_strict_right_mono)
  also have "\<dots> = 2 powi 53" unfolding two_powi_diff by (simp add: j_def)
  finally have "\<bar>d / 2 powi j\<bar> \<le> of_int (2 ^ 53)" by simp
  then have m_le: "\<bar>m\<bar> \<le> 2 ^ 53" unfolding m_def by (rule rhe_abs_le)
  have "2 powi 52 = (2::rat) powi e / 2 powi j" unfolding two_powi_diff by (simp add: j_def)
  also have "\<dots> \<le> \<bar>d\<bar> / 2 powi j" using lo by (simp add: divide_right_mono)
  also have "\<dots> = \<bar>d / 2 powi j\<bar>" by simp
  finally have "of_int (2 ^ 52) \<le> \<bar>d / 2 powi j\<bar>" by simp
  then have m_ge: "2 ^ 52 \<le> \<bar>m\<bar>" unfolding m_def by (rule rhe_abs_ge) simp
  then have m0: "m \<noteq> 0" by auto
  have y: "y = of_int m * 2 powi j"
    using R' d0 e_hi m0
    by (auto simp: round_double_def Let_def e_def[symmetric] mx m_def[symmetric] split: if_splits)
  have y0: "y \<noteq> 0" using m0 by (simp add: y)
  have eq0: "y - d = (of_int m - d / 2 powi j) * 2 powi j" by (simp add: y algebra_simps)
  have "\<bar>y - d\<bar> = \<bar>of_int m - d / 2 powi j\<bar> * 2 powi j"
    unfolding eq0 by (simp only: abs_mult abs_of_pos[OF pj])
  also have "\<dots> \<le> 1 / 2 * 2 powi j"
    using rhe_bounds[of "d / 2 powi j"] unfolding m_def by (intro mult_right_mono) auto
  finally have diff: "\<bar>y - d\<bar> \<le> 1 / 2 * 2 powi j" .
  define n2 where "n2 = round_half_even (y * 100)"
  have goal: "float_round2 (Fin y) = Fin y"
    if "n2 \<noteq> 0" "round_double (of_int n2 / 100) = Fin y"
    using that by (simp add: float_round2_Fin n2_def[symmetric])
  show ?thesis
  proof (cases "e \<le> 45")
    case True
    then have "(2::rat) powi j \<le> 2 powi (- 7)"
      by (intro iffD2[OF two_powi_le_iff]) (simp add: j_def)
    then have "(2::rat) powi j \<le> 1 / 128" by simp
    with diff have "\<bar>y - d\<bar> \<le> 1 / 256" by linarith
    then have "\<bar>y - d\<bar> * 100 \<le> 1 / 256 * 100" by (intro mult_right_mono) auto
    then have "\<bar>y - d\<bar> * 100 < 1 / 2" by simp
    moreover have "y * 100 - of_int n = (y - d) * 100" by (simp add: d_def algebra_simps)
    then have "\<bar>y * 100 - of_int n\<bar> = \<bar>y - d\<bar> * 100" by (simp only: abs_mult)
    ultimately have "\<bar>y * 100 - of_int n\<bar> < 1 / 2" by simp
    then have "n2 = n" unfolding n2_def by (rule rhe_near)
    with n R show ?thesis by (intro goal) simp_all
  next
    case False
    then have e46: "46 \<le> e" by simp
    show ?thesis
    proof (cases "\<exists>z. y * 100 = of_int z")
      case True
      then obtain z where z: "y * 100 = of_int z" by blast
      then have "n2 = z" by (simp add: n2_def)
      moreover have "z \<noteq> 0" using z y0 by auto
      moreover have "of_int z / 100 = y" using z by (simp add: field_simps)
      ultimately show ?thesis using round_double_fixed[OF R] by (intro goal) simp_all
    next
      case nonint: False
      have int_contra: False if "y = of_int z" for z
      proof -
        from that have "y * 100 = of_int (z * 100)" by simp
        with nonint show False by blast
      qed
      have e51: "e \<le> 51"
      proof (rule ccontr)
        assume "\<not> e \<le> 51"
        then have "0 \<le> j" by (simp add: j_def)
        then have "y = of_int (m * 2 ^ nat j)" by (simp add: y two_powi_nat)
        then show False by (rule int_contra)
      qed
      have e0: "0 \<le> e" using e46 by simp
      have ndvd: "\<not> 2 ^ 52 dvd m"
      proof
        assume "2 ^ 52 dvd m"
        then obtain c where c: "m = 2 ^ 52 * c" by (auto simp: dvd_def)
        have "y = of_int c * (2 powi 52 * 2 powi j)" by (simp add: y c)
        also have "2 powi 52 * (2::rat) powi j = 2 powi e" unfolding two_powi_mult by (simp add: j_def)
        also have "\<dots> = of_int (2 ^ nat e)" using e0 by (rule two_powi_nat)
        finally have "y = of_int (c * 2 ^ nat e)" by simp
        then show False by (rule int_contra)
      qed
      have m_gt: "2 ^ 52 + 1 \<le> \<bar>m\<bar>"
      proof -
        have "\<bar>m\<bar> \<noteq> 2 ^ 52"
        proof
          assume a: "\<bar>m\<bar> = 2 ^ 52"
          have "(2::int) ^ 52 dvd \<bar>m\<bar>" unfolding a by simp
          then show False using ndvd by simp
        qed
        with m_ge show ?thesis by simp
      qed
      have m_lt: "\<bar>m\<bar> \<le> 2 ^ 53 - 1"
      proof -
        have "\<bar>m\<bar> \<noteq> 2 ^ 53"
        proof
          assume a: "\<bar>m\<bar> = 2 ^ 53"
          have "(2::int) ^ 52 dvd \<bar>m\<bar>" unfolding a by (simp add: le_imp_power_dvd)
          then show False using ndvd by simp
        qed
        with m_le show ?thesis by simp
      qed
      have ay: "\<bar>y\<bar> = of_int \<bar>m\<bar> * 2 powi j" by (simp add: y abs_mult)
      have j52: "52 + j = e" and j53: "53 + j = e + 1" by (simp_all add: j_def)
      have "(2::rat) powi 52 * 2 powi j = 2 powi e" "(2::rat) powi 53 * 2 powi j = 2 powi (e + 1)"
        unfolding two_powi_mult j52 j53 by (rule refl)+
      then have pe: "(2::rat) powi e = 2 ^ 52 * 2 powi j" "(2::rat) powi (e + 1) = 2 ^ 53 * 2 powi j"
        by simp_all
      have "(of_int (2 ^ 52 + 1) :: rat) \<le> of_int \<bar>m\<bar>"
        using m_gt by (simp only: of_int_le_iff)
      then have "(2 ^ 52 + 1 :: rat) \<le> of_int \<bar>m\<bar>" by simp
      then have "(2 ^ 52 + 1) * 2 powi j \<le> \<bar>y\<bar>" unfolding ay by (intro mult_right_mono) auto
      moreover have "(2 ^ 52 + 1) * 2 powi j = 2 powi e + (2::rat) powi j"
        unfolding pe(1) by (simp add: distrib_right)
      ultimately have y_lo: "2 powi e + 2 powi j \<le> \<bar>y\<bar>" by simp
      have "(of_int \<bar>m\<bar> :: rat) \<le> of_int (2 ^ 53 - 1)"
        using m_lt by (simp only: of_int_le_iff)
      then have "(of_int \<bar>m\<bar> :: rat) \<le> 2 ^ 53 - 1" by simp
      then have "\<bar>y\<bar> \<le> (2 ^ 53 - 1) * 2 powi j" unfolding ay by (intro mult_right_mono) auto
      moreover have "(2 ^ 53 - 1) * 2 powi j = 2 powi (e + 1) - (2::rat) powi j"
        unfolding pe(2) by (simp add: left_diff_distrib)
      ultimately have y_hi: "\<bar>y\<bar> \<le> 2 powi (e + 1) - 2 powi j" by simp
      have "(2::rat) powi (- 6) \<le> 2 powi j"
        using e46 by (intro iffD2[OF two_powi_le_iff]) (simp add: j_def)
      then have j64: "1 / 64 \<le> (2::rat) powi j" by simp
      define d' :: rat where "d' = of_int n2 / 100"
      have eq1: "d' - y = (of_int n2 - y * 100) / 100" by (simp add: d'_def field_simps)
      have "\<bar>d' - y\<bar> = \<bar>of_int n2 - y * 100\<bar> / 100"
        unfolding eq1 by (simp only: abs_divide abs_numeral)
      also have "\<dots> \<le> (1 / 2) / 100"
        using rhe_bounds[of "y * 100"] unfolding n2_def by (intro divide_right_mono) auto
      finally have dd: "\<bar>d' - y\<bar> \<le> 1 / 200" by simp
      have d'_lo: "2 powi e \<le> \<bar>d'\<bar>" using dd y_lo j64 by linarith
      have d'_hi: "\<bar>d'\<bar> < 2 powi (e + 1)" using dd y_hi j64 by linarith
      have "0 < (2::rat) powi e" by simp
      with d'_lo have "0 < \<bar>d'\<bar>" by linarith
      then have "d' \<noteq> 0" by simp
      then have n20: "n2 \<noteq> 0" by (auto simp: d'_def)
      have eq2: "d' / 2 powi j - of_int m = (d' - y) / 2 powi j" by (simp add: y field_simps)
      have "\<bar>d' / 2 powi j - of_int m\<bar> = \<bar>d' - y\<bar> / 2 powi j"
        unfolding eq2 by (simp only: abs_divide abs_of_pos[OF pj])
      also have "\<dots> \<le> (1 / 200) / 2 powi j" using dd by (intro divide_right_mono) auto
      also have "\<dots> \<le> (1 / 200) / (1 / 64)" using j64 by (intro divide_left_mono) auto
      finally have "\<bar>d' / 2 powi j - of_int m\<bar> < 1 / 2" by simp
      then have rm: "round_half_even (d' / 2 powi (e - 52)) = m"
        unfolding j_def[symmetric] by (rule rhe_near)
      have "round_double d' = Fin y"
        using rm d'_lo d'_hi
      proof (rule round_double_evalI)
        show "- 1022 \<le> e" using e0 by simp
        show "e < 1023" using e51 by simp
        show "y = of_int m * 2 powi (e - 52)" by (simp add: y j_def)
      qed
      with n20 show ?thesis unfolding d'_def by (rule goal)
    qed
  qed
qed

lemma rhe_0 [simp]: "round_half_even 0 = 0"
  using rhe_of_int[of 0] by simp

lemma fzero_round2 [simp]: "float_round2 (fzero b) = fzero b"
  by (simp add: fzero_def)

lemma float_round2_idem: "float_round2 (float_round2 x) = float_round2 x"
proof (cases x)
  case (Fin q)
  define n where "n = round_half_even (q * 100)"
  show ?thesis
  proof (cases "n = 0")
    case True
    then show ?thesis by (simp add: Fin float_round2_Fin n_def[symmetric] del: float_round2.simps(1))
  next
    case False
    then have r: "float_round2 x = round_double (of_int n / 100)"
      by (simp add: Fin float_round2_Fin n_def[symmetric] del: float_round2.simps(1))
    show ?thesis
    proof (cases "round_double (of_int n / 100)")
      case (Fin y)
      with float_round2_fixed_aux[OF False Fin] r show ?thesis by simp
    qed (simp_all add: r)
  qed
qed simp_all

lemma py_round2_idem: "py_round2 (py_round2 v) = py_round2 v"
  by (cases v) (simp_all add: float_round2_idem del: float_round2.simps(1))

section \<open>Properties of the notification loop\<close>

lemma display_observers [simp]: "observers (state_of (display ob w)) = observers w"
  by (simp add: display_def split: observer.splits sum.splits prod.splits)

lemma display_wd [simp]:
  "wd_temperature (state_of (display ob w)) = wd_temperature w"
  "wd_humidity (state_of (display ob w)) = wd_humidity w"
  "wd_pressure (state_of (display ob w)) = wd_pressure w"
  by (simp_all add: display_def split: observer.splits sum.splits prod.splits)

lemma display_heap_other: "x \<noteq> ob \<Longrightarrow> heap (state_of (display ob w)) x = heap w x"
  by (simp add: display_def split: observer.splits sum.splits prod.splits)

lemma update_observers [simp]: "observers (state_of (update ob t h p w)) = observers w"
  by (simp add: update_def)

lemma update_wd [simp]:
  "wd_temperature (state_of (update ob t h p w)) = wd_temperature w"
  "wd_humidity (state_of (update ob t h p w)) = wd_humidity w"
  "wd_pressure (state_of (update ob t h p w)) = wd_pressure w"
  by (simp_all add: update_def)

lemma update_heap_other: "x \<noteq> ob \<Longrightarrow> heap (state_of (update ob t h p w)) x = heap w x"
  by (simp add: update_def display_heap_other)

lemma notify_from_keeps:
  assumes K: "\<And>ob t h p w. observers (state_of (upd ob t h p w)) = observers w"
  shows "i \<le> length (observers w) \<Longrightarrow>
    \<exists>tr' r k. notify_from upd i tr w = Some (tr', r) \<and>
      observers (state_of r) = observers w \<and>
      k \<le> length (observers w) - i \<and>
      map fst tr' = map fst tr @ take k (drop i (observers w)) \<and>
      (\<not> raised r \<longrightarrow> k = length (observers w) - i) \<and>
      (raised r \<longrightarrow> 0 < k)"
proof (induction "length (observers w) - i" arbitrary: i tr w)
  case 0
  then have "\<not> i < length (observers w)" by simp
  then have "notify_from upd i tr w = Some (tr, Inr w)"
    by (subst notify_from.simps) simp
  with 0 show ?case by simp
next
  case (Suc n)
  then have lt: "i < length (observers w)" by simp
  define ob where "ob = observers w ! i"
  define c where "c = (ob, wd_temperature w, wd_humidity w, wd_pressure w)"
  have dr: "drop i (observers w) = ob # drop (Suc i) (observers w)"
    using lt by (simp add: ob_def Cons_nth_drop_Suc)
  show ?case
  proof (cases "upd ob (wd_temperature w) (wd_humidity w) (wd_pressure w) w")
    case (Inl ew)
    then have "notify_from upd i tr w = Some (tr @ [c], Inl ew)"
      using lt by (subst notify_from.simps) (simp add: ob_def c_def)
    moreover have "observers (state_of (Inl ew :: world result)) = observers w"
      using K[of ob "wd_temperature w" "wd_humidity w" "wd_pressure w" w] Inl by simp
    ultimately show ?thesis
      using lt dr by (intro exI[of _ "tr @ [c]"] exI[of _ "Inl ew"] exI[of _ 1]) (simp add: c_def)
  next
    case (Inr w')
    then have st: "notify_from upd i tr w = notify_from upd (Suc i) (tr @ [c]) w'"
      using lt by (subst notify_from.simps) (simp add: ob_def c_def)
    have ow: "observers w' = observers w"
      using K[of ob "wd_temperature w" "wd_humidity w" "wd_pressure w" w] Inr by simp
    have "n = length (observers w') - Suc i" "Suc i \<le> length (observers w')"
      using Suc.hyps(2) lt ow by simp_all
    from Suc.hyps(1)[OF this, of "tr @ [c]"] obtain tr' r k where
      res: "notify_from upd (Suc i) (tr @ [c]) w' = Some (tr', r)"
        "observers (state_of r) = observers w'"
        "k \<le> length (observers w') - Suc i"
        "map fst tr' = map fst (tr @ [c]) @ take k (drop (Suc i) (observers w'))"
        "\<not> raised r \<longrightarrow> k = length (observers w') - Suc i"
      by blast
    show ?thesis
      using res st ow lt dr
      by (intro exI[of _ tr'] exI[of _ r] exI[of _ "Suc k"]) (auto simp: c_def)
  qed
qed

lemma notify_from_update:
  "i \<le> length (observers w) \<Longrightarrow>
    \<exists>tr' r k. notify_from update i tr w = Some (tr', r) \<and>
      observers (state_of r) = observers w \<and>
      k \<le> length (observers w) - i \<and>
      tr' = tr @ map (\<lambda>ob. (ob, wd_temperature w, wd_humidity w, wd_pressure w))
                     (take k (drop i (observers w))) \<and>
      (\<not> raised r \<longrightarrow> k = length (observers w) - i) \<and>
      (raised r \<longrightarrow> 0 < k) \<and>
      (\<forall>x. x \<notin> set (take k (drop i (observers w))) \<longrightarrow> heap (state_of r) x = heap w x)"
proof (induction "length (observers w) - i" arbitrary: i tr w)
  case 0
  then have "\<not> i < length (observers w)" by simp
  then have "notify_from update i tr w = Some (tr, Inr w)"
    by (subst notify_from.simps) simp
  with 0 show ?case by simp
next
  case (Suc n)
  then have lt: "i < length (observers w)" by simp
  define ob where "ob = observers w ! i"
  define c where "c = (ob, wd_temperature w, wd_humidity w, wd_pressure w)"
  define u where "u = update ob (wd_temperature w) (wd_humidity w) (wd_pressure w) w"
  have dr: "drop i (observers w) = ob # drop (Suc i) (observers w)"
    using lt by (simp add: ob_def Cons_nth_drop_Suc)
  have uo: "observers (state_of u) = observers w"
    and ut: "wd_temperature (state_of u) = wd_temperature w"
    and uh: "wd_humidity (state_of u) = wd_humidity w"
    and up: "wd_pressure (state_of u) = wd_pressure w"
    and uheap: "\<And>x. x \<noteq> ob \<Longrightarrow> heap (state_of u) x = heap w x"
    by (simp_all add: u_def update_heap_other)
  show ?case
  proof (cases u)
    case (Inl ew)
    then have "notify_from update i tr w = Some (tr @ [c], Inl ew)"
      using lt by (subst notify_from.simps) (simp add: ob_def c_def u_def)
    then show ?thesis
      using lt dr uo uheap Inl
      by (intro exI[of _ "tr @ [c]"] exI[of _ "Inl ew"] exI[of _ 1]) (simp add: c_def)
  next
    case (Inr w')
    then have st: "notify_from update i tr w = notify_from update (Suc i) (tr @ [c]) w'"
      using lt by (subst notify_from.simps) (simp add: ob_def c_def u_def)
    have ow: "observers w' = observers w" and wt: "wd_temperature w' = wd_temperature w"
      and wh: "wd_humidity w' = wd_humidity w" and wp: "wd_pressure w' = wd_pressure w"
      and wheap: "\<And>x. x \<noteq> ob \<Longrightarrow> heap w' x = heap w x"
      using uo ut uh up uheap Inr by simp_all
    have "n = length (observers w') - Suc i" "Suc i \<le> length (observers w')"
      using Suc.hyps(2) lt ow by simp_all
    from Suc.hyps(1)[OF this, of "tr @ [c]"] obtain tr' r k where
      res: "notify_from update (Suc i) (tr @ [c]) w' = Some (tr', r)"
        "observers (state_of r) = observers w'"
        "k \<le> length (observers w') - Suc i"
        "tr' = (tr @ [c]) @ map (\<lambda>ob. (ob, wd_temperature w', wd_humidity w', wd_pressure w'))
                     (take k (drop (Suc i) (observers w')))"
        "\<not> raised r \<longrightarrow> k = length (observers w') - Suc i"
        "\<forall>x. x \<notin> set (take k (drop (Suc i) (observers w'))) \<longrightarrow> heap (state_of r) x = heap w' x"
      by blast
    have "\<forall>x. x \<notin> set (take (Suc k) (drop i (observers w))) \<longrightarrow> heap (state_of r) x = heap w x"
      using res(6) wheap ow dr by simp
    then show ?thesis
      using res(1-5) st ow wt wh wp lt dr
      by (intro exI[of _ tr'] exI[of _ r] exI[of _ "Suc k"]) (auto simp: c_def)
  qed
qed

lemma setMeasurements_update:
  "\<exists>tr r k. setMeasurements update t h p w = Some (tr, r) \<and>
      observers (state_of r) = observers w \<and>
      k \<le> length (observers w) \<and>
      tr = map (\<lambda>ob. (ob, t, h, p)) (take k (observers w)) \<and>
      (\<not> raised r \<longrightarrow> k = length (observers w)) \<and>
      (raised r \<longrightarrow> 0 < k) \<and>
      (\<forall>x. x \<notin> set (take k (observers w)) \<longrightarrow> heap (state_of r) x = heap w x)"
  using notify_from_update[of 0 "w\<lparr>wd_temperature := t, wd_humidity := h, wd_pressure := p\<rparr>" "[]"]
  by (simp add: setMeasurements_def measurementsChanged_def notifyObservers_def)

lemma setMeasurements_keeps:
  assumes "\<And>ob t h p w. observers (state_of (upd ob t h p w)) = observers w"
  shows "\<exists>tr r k. setMeasurements upd t h p w = Some (tr, r) \<and>
      observers (state_of r) = observers w \<and>
      k \<le> length (observers w) \<and>
      map fst tr = take k (observers w) \<and>
      (\<not> raised r \<longrightarrow> k = length (observers w)) \<and>
      (raised r \<longrightarrow> 0 < k)"
  using notify_from_keeps[of upd 0 "w\<lparr>wd_temperature := t, wd_humidity := h, wd_pressure := p\<rparr>" "[]", OF assms]
  by (simp add: setMeasurements_def measurementsChanged_def notifyObservers_def)

section \<open>The claims about the subject\<close>

text \<open>
  Claim C9. \<^verbatim>\<open>removeObserver\<close> called with an observer that is not in the collection raises
  \<^verbatim>\<open>ValueError\<close>, and the state it leaves, the observer collection with it, is the state
  before the call.
\<close>
theorem removeObserver_absent:
  "ob \<notin> set (observers w) \<Longrightarrow> removeObserver ob w = Inl (ValueError, w)"
  by (simp add: removeObserver_def)

lemma main_objects_observers: "observers main_objects = [0, 1, 2]"
  by (simp add: main_objects_def new_ForecastDisplay_def new_StatisticsDisplay_def
      new_CurrentConditionsDisplay_def new_WeatherData_def registerObserver_def)

theorem removeObserver_absent_witness:
  "3 \<notin> set (observers main_objects) \<and>
   removeObserver 3 main_objects = Inl (ValueError, main_objects) \<and>
   observers (state_of (removeObserver 3 main_objects)) = [0, 1, 2]"
  using removeObserver_absent[of 3 main_objects] by (simp add: main_objects_observers)

text \<open>
  Claim C10. When no \<^verbatim>\<open>update\<close> callback changes the observer collection,
  \<^verbatim>\<open>setMeasurements\<close> and \<^verbatim>\<open>notifyObservers\<close> return (or raise) with the list of
  registered observers as it was before the call. The witness shows that the \<^verbatim>\<open>update\<close> of
  the program's own displays is such a callback.
\<close>
theorem notification_keeps_observers:
  assumes "\<forall>ob t h p w. observers (state_of (upd ob t h p w)) = observers w"
  shows "(\<exists>tr r. setMeasurements upd t h p w = Some (tr, r) \<and>
            observers (state_of r) = observers w) \<and>
         (\<exists>tr r. notifyObservers upd w = Some (tr, r) \<and>
            observers (state_of r) = observers w)"
proof
  from setMeasurements_keeps[of upd t h p w] assms
  show "\<exists>tr r. setMeasurements upd t h p w = Some (tr, r) \<and> observers (state_of r) = observers w"
    by blast
  from notify_from_keeps[of upd 0 w "[]"] assms
  show "\<exists>tr r. notifyObservers upd w = Some (tr, r) \<and> observers (state_of r) = observers w"
    unfolding notifyObservers_def by blast
qed

theorem notification_keeps_observers_witness:
  "(\<forall>ob t h p w. observers (state_of (update ob t h p w)) = observers w) \<and>
   (\<exists>tr r. setMeasurements update (PInt 80) (PInt 65) (lit 304 10) main_objects = Some (tr, r) \<and>
      observers (state_of r) = [0, 1, 2]) \<and>
   (\<exists>tr r. notifyObservers update main_objects = Some (tr, r) \<and>
      observers (state_of r) = [0, 1, 2])"
  using notification_keeps_observers[of update "PInt 80" "PInt 65" "lit 304 10" main_objects]
  by (simp add: main_objects_observers)

text \<open>
  Claim C1, as amended. \<^verbatim>\<open>setMeasurements(t, h, p)\<close> always ends. When no \<^verbatim>\<open>update\<close>
  raises, the calls of \<^verbatim>\<open>update\<close> are exactly one per registered observer, in the order
  of the list, each with the three values \<open>t\<close>, \<open>h\<close>, \<open>p\<close>; the empty list gives no call.
  When an \<^verbatim>\<open>update\<close> raises, the exception leaves the loop: the observers up to the
  raising one were called, once each and in order, and the ones after it were not.
\<close>
theorem fan_out:
  "\<exists>tr r. setMeasurements update t h p w = Some (tr, r) \<and>
     (\<not> raised r \<longrightarrow> tr = map (\<lambda>ob. (ob, t, h, p)) (observers w)) \<and>
     (raised r \<longrightarrow> (\<exists>k < length (observers w).
          tr = map (\<lambda>ob. (ob, t, h, p)) (take (Suc k) (observers w))))"
proof -
  from setMeasurements_update[of t h p w] obtain tr r k where
    res: "setMeasurements update t h p w = Some (tr, r)" "k \<le> length (observers w)"
      "tr = map (\<lambda>ob. (ob, t, h, p)) (take k (observers w))"
      "\<not> raised r \<longrightarrow> k = length (observers w)" "raised r \<longrightarrow> 0 < k"
    by blast
  have "raised r \<longrightarrow> (\<exists>j < length (observers w).
          tr = map (\<lambda>ob. (ob, t, h, p)) (take (Suc j) (observers w)))"
  proof
    assume "raised r"
    with res(5) obtain j where "k = Suc j" by (cases k) auto
    with res(2,3) show "\<exists>j < length (observers w).
          tr = map (\<lambda>ob. (ob, t, h, p)) (take (Suc j) (observers w))"
      by (intro exI[of _ j]) auto
  qed
  with res show ?thesis by auto
qed

lemma too_large_rat: "(of_int too_large :: rat) = 2 powi 1024"
  by (simp add: too_large_def)

lemma too_large_pos: "0 < too_large"
  by (simp add: too_large_def)

lemma truediv_overflow: "py_truediv (PInt (too_large + too_large)) (PInt 2) = Inl OverflowError"
proof -
  have "(of_int (too_large + too_large) / of_int 2 :: rat) = 2 powi 1024"
    by (simp add: too_large_rat)
  then have "round_double (of_int (too_large + too_large) / of_int 2) = PosInf"
    by (simp add: round_double_overflow)
  moreover have "too_large + too_large \<noteq> 0" using too_large_pos by simp
  ultimately show ?thesis by (simp del: of_int_add of_int_numeral)
qed

lemma to_float_overflow: "to_float too_large = Inl OverflowError"
proof -
  have "round_double (of_int too_large) = PosInf"
    by (simp add: round_double_overflow too_large_rat)
  then show ?thesis by (simp add: to_float_def)
qed

lemma midpoint_overflow: "midpoint (PInt (too_large)) (PInt (too_large)) = Inl OverflowError"
  using truediv_overflow by (simp add: midpoint_def del: py_truediv.simps)

theorem fan_out_witness:
  "map_option fst (setMeasurements update (PInt 80) (PInt 65) (lit 304 10) two_current_displays)
     = Some (map (\<lambda>ob. (ob, PInt 80, PInt 65, lit 304 10)) (observers two_current_displays)) \<and>
   map_option (raised \<circ> snd)
     (setMeasurements update (PInt 80) (PInt 65) (lit 304 10) two_current_displays) = Some False"
proof -
  let ?t = "PInt 80" and ?h = "PInt 65" and ?p = "lit 304 10"
  from fan_out[of ?t ?h ?p two_current_displays] obtain tr r where
    a: "setMeasurements update ?t ?h ?p two_current_displays = Some (tr, r)"
       "\<not> raised r \<longrightarrow> tr = map (\<lambda>ob. (ob, ?t, ?h, ?p)) (observers two_current_displays)"
    by blast
  have "\<exists>v. setMeasurements update ?t ?h ?p two_current_displays =
      Some ([(0, ?t, ?h, ?p), (1, ?t, ?h, ?p)], Inr v)"
    by (simp add: two_current_displays_def setMeasurements_def measurementsChanged_def
        notifyObservers_def notify_from.simps new_CurrentConditionsDisplay_def
        new_WeatherData_def registerObserver_def update_def display_def Let_def)
  with a(1) have "\<not> raised r" by auto
  with a show ?thesis by simp
qed

text \<open>
  Claim C1 fails on the code where an \<^verbatim>\<open>update\<close> raises. With a \<^verbatim>\<open>StatisticsDisplay\<close>
  and then a \<^verbatim>\<open>CurrentConditionsDisplay\<close> registered, \<^verbatim>\<open>setMeasurements(2**1024, 0, 0)\<close>
  calls the first only: its \<^verbatim>\<open>display\<close> raises \<^verbatim>\<open>OverflowError\<close> in
  \<^verbatim>\<open>(self.max_temp + self.min_temp) / 2\<close>, and the second observer is never called.
\<close>

theorem fan_out_counterexample:
  "observers (new_CurrentConditionsDisplay 1 (new_StatisticsDisplay 0 new_WeatherData)) = [0, 1] \<and>
   map_option fst (setMeasurements update (PInt (too_large)) (PInt 0) (PInt 0)
      (new_CurrentConditionsDisplay 1 (new_StatisticsDisplay 0 new_WeatherData)))
   = Some [(0, PInt (too_large), PInt 0, PInt 0)]"
proof -
  have m: "midpoint (PInt (too_large)) (PInt (too_large)) = Inl OverflowError" by (rule midpoint_overflow)
  show ?thesis
    by (simp add: setMeasurements_def measurementsChanged_def notifyObservers_def notify_from.simps
      new_CurrentConditionsDisplay_def new_StatisticsDisplay_def new_WeatherData_def
      registerObserver_def update_def display_def calculate_stats_def StatisticsDisplay_init_def
      py_min_def py_max_def py_lt_def py_gt_def float_lt_def Let_def m)
qed

lemma two_current_displays_observers: "observers two_current_displays = [0, 1]"
  by (simp add: two_current_displays_def new_CurrentConditionsDisplay_def new_WeatherData_def
      registerObserver_def)

lemma notify_two_current_displays:
  "\<exists>w'. notifyObservers update two_current_displays =
      Some ([(0, PInt 0, PInt 0, PInt 0), (1, PInt 0, PInt 0, PInt 0)], Inr w')"
  by (simp add: two_current_displays_def notifyObservers_def notify_from.simps
      new_CurrentConditionsDisplay_def new_WeatherData_def registerObserver_def
      update_def display_def Let_def)

text \<open>
  Claim C2 fails on the code: the loop walks the live list. With the observers \<open>[0, 1]\<close>,
  where the \<^verbatim>\<open>update\<close> of object 0 deregisters it, object 1 moves to index 0, the loop
  goes on at index 1 and ends; object 1, registered when the notification began, is never
  called.
\<close>
theorem live_list_counterexample:
  "observers two_current_displays = [0, 1] \<and>
   map_option fst (notifyObservers (mixed_dispatch 0) two_current_displays)
     = Some [(0, PInt 0, PInt 0, PInt 0)]"
  by (simp add: two_current_displays_def notifyObservers_def notify_from.simps
      mixed_dispatch_def deregistering_update_def removeObserver_def
      new_CurrentConditionsDisplay_def new_WeatherData_def registerObserver_def
      update_def display_def Let_def)

text \<open>
  Claim C2, as amended. The loop iterates over the live list, not over a snapshot.
  When no \<^verbatim>\<open>update\<close> callback changes the observer collection, the notification ends,
  and unless a callback raises, every observer registered when it began is called exactly
  once, in the order of the list.
\<close>

theorem each_once_when_list_unchanged:
  assumes "\<forall>ob t h p w. observers (state_of (upd ob t h p w)) = observers w"
  shows "\<exists>tr r. notifyObservers upd w = Some (tr, r) \<and>
           (\<not> raised r \<longrightarrow> map fst tr = observers w)"
proof -
  from notify_from_keeps[of upd 0 w "[]"] assms obtain tr r k where
    "notify_from upd 0 [] w = Some (tr, r)" "map fst tr = take k (observers w)"
    "\<not> raised r \<longrightarrow> k = length (observers w)"
    by auto
  then show ?thesis unfolding notifyObservers_def by auto
qed

theorem each_once_when_list_unchanged_witness:
  "(\<forall>ob t h p w. observers (state_of (update ob t h p w)) = observers w) \<and>
   map_option (map fst \<circ> fst) (notifyObservers update two_current_displays) = Some [0, 1] \<and>
   map_option (raised \<circ> snd) (notifyObservers update two_current_displays) = Some False"
proof -
  from each_once_when_list_unchanged[of update two_current_displays]
  obtain tr r where a: "notifyObservers update two_current_displays = Some (tr, r)"
    and b: "\<not> raised r \<longrightarrow> map fst tr = observers two_current_displays"
    by auto
  from notify_two_current_displays a have "\<not> raised r" by auto
  with a b show ?thesis by (simp add: two_current_displays_observers)
qed

lemma count_list_remove1:
  "x \<in> set xs \<Longrightarrow> count_list (remove1 x xs) x = count_list xs x - 1"
  by (induction xs) auto

lemma count_list_0_iff': "count_list xs x = 0 \<longleftrightarrow> x \<notin> set xs"
  by (induction xs) auto

lemma feed_absent:
  "ob \<notin> set (observers w) \<Longrightarrow>
   \<exists>tr w2. feed update rs w = Some (tr, w2) \<and> ob \<notin> fst ` set tr \<and>
     heap w2 ob = heap w ob \<and> observers w2 = observers w"
proof (induction rs arbitrary: w)
  case Nil
  then show ?case by simp
next
  case (Cons x rs)
  obtain t h p where x: "x = (t, h, p)" by (cases x)
  from setMeasurements_update[of t h p w] obtain tr r k where
    sm: "setMeasurements update t h p w = Some (tr, r)"
      "observers (state_of r) = observers w"
      "tr = map (\<lambda>ob. (ob, t, h, p)) (take k (observers w))"
      "\<forall>x. x \<notin> set (take k (observers w)) \<longrightarrow> heap (state_of r) x = heap w x"
    by blast
  have nin: "ob \<notin> set (take k (observers w))"
    using Cons.prems by (meson in_set_takeD)
  then have hp: "heap (state_of r) ob = heap w ob" using sm(4) by simp
  have ntr: "ob \<notin> fst ` set tr" using nin by (auto simp: sm(3))
  from Cons.IH[of "state_of r"] Cons.prems sm(2) obtain tr' w2 where
    fd: "feed update rs (state_of r) = Some (tr', w2)" "ob \<notin> fst ` set tr'"
      "heap w2 ob = heap (state_of r) ob" "observers w2 = observers (state_of r)"
    by auto
  show ?case
    using sm(1,2) fd hp ntr by (auto simp: x)
qed

text \<open>
  Claim C3. Let \<open>ob\<close> be registered exactly once. Then \<^verbatim>\<open>removeObserver(ob)\<close> returns
  normally, and whatever readings are fed to \<^verbatim>\<open>setMeasurements\<close> afterwards, every call
  ends, none of them calls \<open>ob\<close>'s \<^verbatim>\<open>update\<close>, and the object \<open>ob\<close> (its stored temperature,
  humidity and pressure and its accumulators) is the same as before the removal.
\<close>
theorem removed_observer_is_left_alone:
  assumes "count_list (observers w) ob = 1"
  shows "\<exists>w1. removeObserver ob w = Inr w1 \<and>
           (\<forall>rs. \<exists>tr w2. feed update rs w1 = Some (tr, w2) \<and>
                   ob \<notin> fst ` set tr \<and> heap w2 ob = heap w ob)"
proof -
  have mem: "ob \<in> set (observers w)"
    using assms count_list_0_iff'[of "observers w" ob] by auto
  define w1 where "w1 = w\<lparr>observers := remove1 ob (observers w)\<rparr>"
  have r: "removeObserver ob w = Inr w1" using mem by (simp add: removeObserver_def w1_def)
  have "count_list (observers w1) ob = 0"
    using count_list_remove1[OF mem] assms by (simp add: w1_def)
  then have nin: "ob \<notin> set (observers w1)" by (simp add: count_list_0_iff')
  have hp: "heap w1 ob = heap w ob" by (simp add: w1_def)
  have "\<exists>tr w2. feed update rs w1 = Some (tr, w2) \<and> ob \<notin> fst ` set tr \<and> heap w2 ob = heap w ob"
    for rs
    using feed_absent[OF nin, of rs] hp by fastforce
  with r show ?thesis by blast
qed

theorem removed_observer_is_left_alone_witness:
  "count_list (observers main_objects) 0 = 1 \<and>
   (\<exists>w1. removeObserver 0 main_objects = Inr w1 \<and>
      (\<forall>rs. \<exists>tr w2. feed update rs w1 = Some (tr, w2) \<and>
              0 \<notin> fst ` set tr \<and> heap w2 0 = heap main_objects 0))"
  using removed_observer_is_left_alone[of main_objects 0]
  by (simp add: main_objects_observers)

text \<open>
  Claim C4 fails on the code where an \<^verbatim>\<open>update\<close> raises: a \<^verbatim>\<open>ForecastDisplay\<close> registered
  twice is called once, not twice, by \<^verbatim>\<open>setMeasurements(0, 2**1024, 0)\<close>, since its first
  \<^verbatim>\<open>update\<close> raises \<^verbatim>\<open>OverflowError\<close> in \<^verbatim>\<open>0.11 * self.humidity\<close>.
\<close>
theorem no_deduplication_counterexample:
  "observers (registerObserver 0 (new_ForecastDisplay 0 new_WeatherData)) = [0, 0] \<and>
   map_option fst (setMeasurements update (PInt 0) (PInt too_large) (PInt 0)
      (registerObserver 0 (new_ForecastDisplay 0 new_WeatherData)))
     = Some [(0, PInt 0, PInt too_large, PInt 0)]"
proof -
  have m: "to_float too_large = Inl OverflowError" by (rule to_float_overflow)
  show ?thesis
    by (simp add: setMeasurements_def measurementsChanged_def notifyObservers_def notify_from.simps
      new_ForecastDisplay_def new_WeatherData_def ForecastDisplay_init_def
      registerObserver_def update_def display_def calculate_forcast_def forcast_temp_expr_def
      lit_def Let_def m)
qed

lemma setMeasurements_count:
  "\<exists>tr r. setMeasurements update t h p w = Some (tr, r) \<and>
     (\<not> raised r \<longrightarrow> count_list (map fst tr) ob = count_list (observers w) ob)"
proof -
  from setMeasurements_update[of t h p w] obtain tr r k where
    "setMeasurements update t h p w = Some (tr, r)"
    "tr = map (\<lambda>ob. (ob, t, h, p)) (take k (observers w))"
    "\<not> raised r \<longrightarrow> k = length (observers w)"
    by blast
  then show ?thesis by (auto simp: comp_def)
qed

text \<open>
  Claim C4, as amended. \<^verbatim>\<open>registerObserver\<close> appends to the list and checks nothing.
  After an observer was registered twice more, a \<^verbatim>\<open>setMeasurements\<close> call in which no
  \<^verbatim>\<open>update\<close> raises calls it twice more than the number of its earlier registrations
  (twice, for an observer not registered before). \<^verbatim>\<open>removeObserver\<close> deletes the first
  occurrence only: after one removal such a call calls it once more than the number of its
  earlier registrations (once, for an observer not registered before).
\<close>

theorem no_deduplication:
  "observers (registerObserver ob w) = observers w @ [ob] \<and>
   (\<exists>tr r. setMeasurements update t h p (registerObserver ob (registerObserver ob w)) = Some (tr, r) \<and>
      (\<not> raised r \<longrightarrow> count_list (map fst tr) ob = count_list (observers w) ob + 2)) \<and>
   (\<exists>w'. removeObserver ob (registerObserver ob (registerObserver ob w)) = Inr w' \<and>
      observers w' = remove1 ob (observers w @ [ob, ob]) \<and>
      (\<exists>tr r. setMeasurements update t h p w' = Some (tr, r) \<and>
         (\<not> raised r \<longrightarrow> count_list (map fst tr) ob = count_list (observers w) ob + 1)))"
proof (intro conjI)
  show "observers (registerObserver ob w) = observers w @ [ob]"
    by (simp add: registerObserver_def)
  show "\<exists>tr r. setMeasurements update t h p (registerObserver ob (registerObserver ob w)) = Some (tr, r) \<and>
      (\<not> raised r \<longrightarrow> count_list (map fst tr) ob = count_list (observers w) ob + 2)"
    using setMeasurements_count[of t h p "registerObserver ob (registerObserver ob w)" ob]
    by (simp add: registerObserver_def)
  define w' where "w' = w\<lparr>observers := remove1 ob (observers w @ [ob, ob])\<rparr>"
  have r: "removeObserver ob (registerObserver ob (registerObserver ob w)) = Inr w'"
    by (simp add: removeObserver_def registerObserver_def w'_def)
  have c: "count_list (observers w') ob = count_list (observers w) ob + 1"
    using count_list_remove1[of ob "observers w @ [ob, ob]"] by (simp add: w'_def)
  show "\<exists>w'. removeObserver ob (registerObserver ob (registerObserver ob w)) = Inr w' \<and>
      observers w' = remove1 ob (observers w @ [ob, ob]) \<and>
      (\<exists>tr r. setMeasurements update t h p w' = Some (tr, r) \<and>
         (\<not> raised r \<longrightarrow> count_list (map fst tr) ob = count_list (observers w) ob + 1))"
    using r c setMeasurements_count[of t h p w' ob] by (auto simp: w'_def)
qed

theorem no_deduplication_witness:
  "(\<exists>tr r. setMeasurements update (PInt 80) (PInt 65) (lit 304 10)
        (registerObserver 0 (registerObserver 0 new_WeatherData)) = Some (tr, r) \<and>
      \<not> raised r \<and> count_list (map fst tr) 0 = 2) \<and>
   (\<exists>w'. removeObserver 0 (registerObserver 0 (registerObserver 0 new_WeatherData)) = Inr w' \<and>
      observers w' = [0] \<and>
      (\<exists>tr r. setMeasurements update (PInt 80) (PInt 65) (lit 304 10) w' = Some (tr, r) \<and>
         \<not> raised r \<and> count_list (map fst tr) 0 = 1))"
proof -
  let ?t = "PInt 80" and ?h = "PInt 65" and ?p = "lit 304 10"
  let ?w2 = "registerObserver 0 (registerObserver 0 new_WeatherData)"
  from no_deduplication[of 0 new_WeatherData ?t ?h ?p]
  obtain tr r w' tr' r' where
    a: "setMeasurements update ?t ?h ?p ?w2 = Some (tr, r)"
       "\<not> raised r \<longrightarrow> count_list (map fst tr) 0 = count_list (observers new_WeatherData) 0 + 2"
    and b: "removeObserver 0 ?w2 = Inr w'"
       "observers w' = remove1 0 (observers new_WeatherData @ [0, 0])"
       "setMeasurements update ?t ?h ?p w' = Some (tr', r')"
       "\<not> raised r' \<longrightarrow> count_list (map fst tr') 0 = count_list (observers new_WeatherData) 0 + 1"
    by blast
  have e1: "\<exists>v. setMeasurements update ?t ?h ?p ?w2 = Some ([(0, ?t, ?h, ?p), (0, ?t, ?h, ?p)], Inr v)"
    by (simp add: setMeasurements_def measurementsChanged_def notifyObservers_def
        notify_from.simps new_WeatherData_def registerObserver_def update_def display_def Let_def)
  have w': "w' = registerObserver 0 new_WeatherData"
    using b(1) by (simp add: removeObserver_def registerObserver_def new_WeatherData_def)
  have e2: "\<exists>v. setMeasurements update ?t ?h ?p w' = Some ([(0, ?t, ?h, ?p)], Inr v)"
    unfolding w'
    by (simp add: setMeasurements_def measurementsChanged_def notifyObservers_def
        notify_from.simps new_WeatherData_def registerObserver_def update_def display_def Let_def)
  from e1 a(1) have r: "\<not> raised r" by auto
  from e2 b(3) have r': "\<not> raised r'" by auto
  have o: "observers new_WeatherData = []" by (simp add: new_WeatherData_def)
  show ?thesis
    using a b r r' by (simp add: o)
qed

section \<open>Displaying without a new reading\<close>

subsection \<open>\<^verbatim>\<open>calculate_stats\<close> twice\<close>

lemma min_step:
  assumes "py_round2 m = m"
  shows "py_round2 (py_min (py_round2 (py_min m t)) t) = py_round2 (py_min m t)"
proof (cases "py_lt t m")
  case True
  then show ?thesis by (simp add: py_min_def py_round2_idem)
next
  case False
  then show ?thesis using assms by (simp add: py_min_def)
qed

lemma max_step:
  assumes "py_round2 m = m"
  shows "py_round2 (py_max (py_round2 (py_max m t)) t) = py_round2 (py_max m t)"
proof (cases "py_gt t m")
  case True
  then show ?thesis by (simp add: py_max_def py_round2_idem)
next
  case False
  then show ?thesis using assms by (simp add: py_max_def)
qed

lemma calculate_stats_idem:
  assumes "stats_inv s"
  shows "calculate_stats (state_of (calculate_stats s)) = calculate_stats s"
  using assms
  by (simp add: calculate_stats_def stats_inv_def Let_def min_step max_step py_round2_idem
      split: sum.splits)

lemma calculate_stats_inv:
  assumes "stats_inv s"
  shows "stats_inv (state_of (calculate_stats s))"
  using assms
  by (simp add: calculate_stats_def stats_inv_def Let_def py_round2_idem split: sum.splits)


lemma calculate_forcast_idem:
  "calculate_forcast (state_of (calculate_forcast s)) = calculate_forcast s"
  by (simp add: calculate_forcast_def Let_def split: sum.splits)

subsection \<open>\<^verbatim>\<open>display\<close> twice\<close>

lemma calculate_stats_inv_Inl: "stats_inv s \<Longrightarrow> calculate_stats s = Inl (e, s') \<Longrightarrow> stats_inv s'"
  using calculate_stats_inv[of s] by simp

lemma calculate_stats_inv_Inr: "stats_inv s \<Longrightarrow> calculate_stats s = Inr s' \<Longrightarrow> stats_inv s'"
  using calculate_stats_inv[of s] by simp

lemma display_inv: "world_inv w \<Longrightarrow> world_inv (state_of (display ob w))"
  by (auto simp: world_inv_def display_def
      split: observer.splits sum.splits prod.splits
      intro: calculate_stats_inv_Inl calculate_stats_inv_Inr)

lemma display_output_again:
  assumes "world_inv w"
  shows "display_output self (state_of (display self w)) = display_output self w"
proof (cases "heap w self")
  case (CurrentConditions s)
  then show ?thesis by (simp add: display_output_def display_def)
next
  case (Statistics s)
  with assms have inv: "stats_inv s" by (simp add: world_inv_def)
  show ?thesis
  proof (cases "calculate_stats s")
    case (Inl es)
    obtain e s' where es: "es = (e, s')" by (cases es)
    from calculate_stats_idem[OF inv] Inl es have "calculate_stats s' = Inl (e, s')" by simp
    with Inl es Statistics show ?thesis by (simp add: display_output_def display_def)
  next
    case (Inr s')
    from calculate_stats_idem[OF inv] Inr have "calculate_stats s' = Inr s'" by simp
    with Inr Statistics show ?thesis by (simp add: display_output_def display_def)
  qed
next
  case (Forecast s)
  show ?thesis
  proof (cases "calculate_forcast s")
    case (Inl es)
    obtain e s' where es: "es = (e, s')" by (cases es)
    from calculate_forcast_idem[of s] Inl es have "calculate_forcast s' = Inl (e, s')" by simp
    with Inl es Forecast show ?thesis by (simp add: display_output_def display_def)
  next
    case (Inr s')
    from calculate_forcast_idem[of s] Inr have "calculate_forcast s' = Inr s'" by simp
    with Inr Forecast show ?thesis by (simp add: display_output_def display_def)
  qed
qed

lemma displays_output:
  "world_inv w \<Longrightarrow> display_output self (displays self n w) = display_output self w"
proof (induction n arbitrary: w)
  case 0
  then show ?case by simp
next
  case (Suc n)
  from Suc.prems have "world_inv (state_of (display self w))" by (rule display_inv)
  from Suc.IH[OF this] display_output_again[OF Suc.prems] show ?case by simp
qed

subsection \<open>Every reachable state keeps the accumulators rounded\<close>

lemma stats_inv_init: "stats_inv StatisticsDisplay_init"
  by (simp add: stats_inv_def StatisticsDisplay_init_def)

lemma stats_inv_store: "stats_inv s \<Longrightarrow> stats_inv (s\<lparr>temperature := t, humidity := h, pressure := p\<rparr>)"
  by (simp add: stats_inv_def)

lemma update_inv: "world_inv w \<Longrightarrow> world_inv (state_of (update ob t h p w))"
proof -
  assume inv: "world_inv w"
  have "world_inv (w\<lparr>heap := (heap w)(ob := store_reading t h p (heap w ob))\<rparr>)"
    using inv by (cases "heap w ob") (auto simp: world_inv_def stats_inv_store)
  then show ?thesis unfolding update_def by (rule display_inv)
qed

lemma notify_from_inv:
  "i \<le> length (observers w) \<Longrightarrow> world_inv w \<Longrightarrow>
   notify_from update i tr w = Some (tr', r) \<Longrightarrow> world_inv (state_of r)"
proof (induction "length (observers w) - i" arbitrary: i tr w)
  case 0
  then have "\<not> i < length (observers w)" by simp
  then have "notify_from update i tr w = Some (tr, Inr w)"
    by (subst notify_from.simps) simp
  with 0 show ?case by auto
next
  case (Suc n)
  then have lt: "i < length (observers w)" by simp
  define ob where "ob = observers w ! i"
  define c where "c = (ob, wd_temperature w, wd_humidity w, wd_pressure w)"
  define u where "u = update ob (wd_temperature w) (wd_humidity w) (wd_pressure w) w"
  have ui: "world_inv (state_of u)" unfolding u_def using Suc.prems(2) by (rule update_inv)
  have uo: "observers (state_of u) = observers w" by (simp add: u_def)
  show ?case
  proof (cases u)
    case (Inl ew)
    then have "notify_from update i tr w = Some (tr @ [c], Inl ew)"
      using lt by (subst notify_from.simps) (simp add: ob_def c_def u_def)
    with Suc.prems(3) ui Inl show ?thesis by auto
  next
    case (Inr w')
    then have st: "notify_from update i tr w = notify_from update (Suc i) (tr @ [c]) w'"
      using lt by (subst notify_from.simps) (simp add: ob_def c_def u_def)
    have ow: "observers w' = observers w" and wi: "world_inv w'" using uo ui Inr by simp_all
    have "n = length (observers w') - Suc i" "Suc i \<le> length (observers w')"
      using Suc.hyps(2) lt ow by simp_all
    from Suc.hyps(1)[OF this wi] Suc.prems(3) st show ?thesis by simp
  qed
qed

lemma reachable_inv: "reachable w \<Longrightarrow> world_inv w"
proof (induction rule: reachable.induct)
  case start
  show ?case by (simp add: world_inv_def new_WeatherData_def)
next
  case (new_current w ob)
  then show ?case by (auto simp: world_inv_def new_CurrentConditionsDisplay_def registerObserver_def)
next
  case (new_statistics w ob)
  then show ?case
    by (auto simp: world_inv_def new_StatisticsDisplay_def registerObserver_def stats_inv_init)
next
  case (new_forecast w ob)
  then show ?case by (auto simp: world_inv_def new_ForecastDisplay_def registerObserver_def)
next
  case (register w ob)
  then show ?case by (simp add: world_inv_def registerObserver_def)
next
  case (remove w ob)
  then show ?case by (simp add: world_inv_def removeObserver_def)
next
  case (measurements w t h p tr r)
  from measurements(2) have
    "notify_from update 0 [] (w\<lparr>wd_temperature := t, wd_humidity := h, wd_pressure := p\<rparr>) = Some (tr, r)"
    by (simp add: setMeasurements_def measurementsChanged_def notifyObservers_def)
  moreover have "world_inv (w\<lparr>wd_temperature := t, wd_humidity := h, wd_pressure := p\<rparr>)"
    using measurements(3) by (simp add: world_inv_def)
  ultimately show ?case using notify_from_inv[of 0] by blast
next
  case (updated w ob t h p)
  then show ?case by (simp add: update_inv)
next
  case (displayed w ob)
  then show ?case by (simp add: display_inv)
qed

text \<open>
  Claim C8. In every state the program can reach, and for every observer
  (\<^verbatim>\<open>CurrentConditionsDisplay\<close>, \<^verbatim>\<open>StatisticsDisplay\<close> or \<^verbatim>\<open>ForecastDisplay\<close>), the
  call of \<^verbatim>\<open>display\<close> that follows \<open>n\<close> earlier calls, with no \<^verbatim>\<open>update\<close> between them,
  writes the same lines as the first call (and raises the same exception, when it raises).
\<close>

theorem display_is_repeatable:
  assumes "reachable w"
  shows "display_output self (displays self n w) = display_output self w"
  using assms by (intro displays_output reachable_inv)

theorem display_is_repeatable_witness:
  "\<exists>tr r. setMeasurements update (PInt 80) (PInt 65) (lit 304 10) main_objects = Some (tr, r) \<and>
      reachable (state_of r) \<and>
      display_output 1 (displays 1 2 (state_of r)) = display_output 1 (state_of r)"
proof -
  have m: "reachable main_objects"
    unfolding main_objects_def by (intro reachable.intros)
  from setMeasurements_update[of "PInt 80" "PInt 65" "lit 304 10" main_objects]
  obtain tr r where s: "setMeasurements update (PInt 80) (PInt 65) (lit 304 10) main_objects = Some (tr, r)"
    by blast
  from m s have r: "reachable (state_of r)" by (rule reachable.measurements)
  from display_is_repeatable[OF r, of 1 2] s r show ?thesis by blast
qed

end
